theory Spec2Isabelle
  imports Main "HOL-Library.AList" "HOL-Library.Sublist" "HOL-Library.Word"
begin

section \<open>Python values\<close>

text \<open>
  The functions of \<^verbatim>\<open>core/dbt/utils.py\<close> verified here work on the values that
  \<^verbatim>\<open>yaml.safe_load\<close> and \<^verbatim>\<open>json.load\<close> return: the atomic values \<^verbatim>\<open>None\<close>, \<^verbatim>\<open>bool\<close>,
  \<^verbatim>\<open>int\<close>, \<^verbatim>\<open>float\<close>, \<^verbatim>\<open>str\<close>, and the containers \<^verbatim>\<open>list\<close> and \<^verbatim>\<open>dict\<close>. The code also tests
  for \<^verbatim>\<open>tuple\<close>, so tuples are values too. A float is only carried around, never computed
  with; its payload is the 64-bit pattern of the double.

  A \<^verbatim>\<open>dict\<close> is an association list in insertion order. Its keys are strings (the
  \<^verbatim>\<open>Dict[str, Any]\<close> of the source's annotations), and they are unique in every dict that
  Python builds; a theorem that needs it assumes \<open>distinct (map fst d)\<close>.
\<close>

datatype atom = ANone | ABool bool | AInt int | AFloat "64 word" | AStr string

datatype "value" =
    Atom atom
  | VList "value list"
  | VTuple "value list"
  | VDict "(string \<times> value) list"

type_synonym pydict = "(string \<times> value) list"

abbreviation PyNone :: "value" where "PyNone \<equiv> Atom ANone"
abbreviation PyInt :: "int \<Rightarrow> value" where "PyInt i \<equiv> Atom (AInt i)"
abbreviation PyStr :: "string \<Rightarrow> value" where "PyStr s \<equiv> Atom (AStr s)"

fun is_dict :: "value \<Rightarrow> bool" where
  "is_dict (VDict _) = True"
| "is_dict _ = False"

text \<open>The exceptions the modelled functions raise, as values.\<close>

datatype error =
    AttributeError
  | TypeError
  | KeyError string
  | RuntimeError string
  | DbtConfigError
  | RecursionException

text \<open>
  Dict operations: \<^verbatim>\<open>d.get(k)\<close> is \<open>map_of d k\<close>, \<^verbatim>\<open>k in d\<close> is \<open>dict_contains\<close>, and
  \<^verbatim>\<open>d[k] = v\<close> is \<open>AList.update k v d\<close>, which replaces the value of a present key in
  place and appends an absent key at the end, as Python does.
\<close>

definition dict_contains :: "string \<Rightarrow> (string \<times> 'v) list \<Rightarrow> bool" where
  "dict_contains k d = (map_of d k \<noteq> None)"

fun is_list :: "value \<Rightarrow> bool" where
  "is_list (VList _) = True"
| "is_list _ = False"

fun is_tuple :: "value \<Rightarrow> bool" where
  "is_tuple (VTuple _) = True"
| "is_tuple _ = False"

text \<open>
  \<^verbatim>\<open>d.setdefault(k, dflt)\<close> returns the value at \<open>k\<close>, after storing \<open>dflt\<close> there
  when the key is absent: the result is the value and the updated dict.
\<close>

definition setdefault :: "string \<Rightarrow> 'v \<Rightarrow> (string \<times> 'v) list \<Rightarrow> 'v \<times> (string \<times> 'v) list" where
  "setdefault k dflt d =
     (case map_of d k of
        Some v \<Rightarrow> (v, d)
      | None \<Rightarrow> (dflt, AList.update k dflt d))"

text \<open>
  \<^verbatim>\<open>list(x)\<close>: the elements of a list or tuple, the keys of a dict, the characters of a
  string; any other atomic value is not iterable.
\<close>

fun py_list :: "value \<Rightarrow> error + value list" where
  "py_list (VList xs) = Inr xs"
| "py_list (VTuple xs) = Inr xs"
| "py_list (VDict d) = Inr (map (\<lambda>kv. PyStr (fst kv)) d)"
| "py_list (Atom (AStr s)) = Inr (map (\<lambda>c. PyStr [c]) s)"
| "py_list (Atom _) = Inl TypeError"

text \<open>
  On values without identity a deep copy is the value itself. (The copy on a store of
  objects with identity is \<open>copy_deepcopy\<close> below.)
\<close>

definition deepcopy :: "value \<Rightarrow> value" where
  "deepcopy v = v"

section \<open>fqn\_search\<close>

text \<open>
  \<^verbatim>\<open>
  def fqn_search(root, fqn):
      yield root
      for level in fqn:
          level_config = root.get(level, None)
          if level_config is None:
              break
          yield copy.deepcopy(level_config)
          root = level_config
  \<close>
  The generator is modelled by what a consumer that exhausts it sees: the list of the
  values yielded, and how the iteration ends, \<open>None\<close> for a normal end and \<open>Some e\<close> for
  the exception \<open>e\<close> raised after the last yield. Only a dict has the method \<^verbatim>\<open>get\<close>; on
  every other value of the model the attribute lookup raises \<^verbatim>\<open>AttributeError\<close>.
  \<open>fqn_search_loop\<close> is the \<^verbatim>\<open>for\<close> loop.
\<close>

fun fqn_search_loop :: "value \<Rightarrow> string list \<Rightarrow> value list \<times> error option" where
  "fqn_search_loop root [] = ([], None)"
| "fqn_search_loop root (level # fqn) =
     (case root of
        VDict d \<Rightarrow>
          (let level_config = (case map_of d level of Some c \<Rightarrow> c | None \<Rightarrow> PyNone)
           in if level_config = PyNone then ([], None)
              else (case fqn_search_loop level_config fqn of
                      (ys, e) \<Rightarrow> (deepcopy level_config # ys, e)))
      | _ \<Rightarrow> ([], Some AttributeError))"

definition fqn_search :: "value \<Rightarrow> string list \<Rightarrow> value list \<times> error option" where
  "fqn_search root fqn = (case fqn_search_loop root fqn of (ys, e) \<Rightarrow> (root # ys, e))"

text \<open>
  For the statements about the search: \<open>get_path root ks\<close> is \<^verbatim>\<open>root[k1][k2]...\<close>, the
  value found by following the keys \<open>ks\<close> through nested dicts, and \<open>level_get v s\<close> is
  \<^verbatim>\<open>v.get(s, None)\<close> for a dict \<open>v\<close>.
\<close>

fun get_path :: "value \<Rightarrow> string list \<Rightarrow> value option" where
  "get_path v [] = Some v"
| "get_path (VDict d) (k # ks) = (case map_of d k of Some c \<Rightarrow> get_path c ks | None \<Rightarrow> None)"
| "get_path _ (k # ks) = None"

fun level_get :: "value \<Rightarrow> string \<Rightarrow> value" where
  "level_get (VDict d) s = (case map_of d s of Some c \<Rightarrow> c | None \<Rightarrow> PyNone)"
| "level_get _ s = PyNone"

section \<open>deep\_merge\<close>

text \<open>
  \<^verbatim>\<open>
  def deep_merge(*args):
      if len(args) == 0:
          return None
      if len(args) == 1:
          return copy.deepcopy(args[0])
      lst = list(args)
      last = copy.deepcopy(lst.pop(len(lst) - 1))
      return _deep_merge(deep_merge(*lst), last)

  def _deep_merge(destination, source):
      if isinstance(source, dict):
          for key, value in source.items():
              deep_merge_item(destination, key, value)
          return destination

  def deep_merge_item(destination, key, value):
      if isinstance(value, dict):
          node = destination.setdefault(key, {})
          destination[key] = deep_merge(node, value)
      elif isinstance(value, tuple) or isinstance(value, list):
          if key in destination:
              destination[key] = list(value) + list(destination[key])
          else:
              destination[key] = value
      else:
          destination[key] = value
  \<close>
  \<open>u_deep_merge\<close> is \<^verbatim>\<open>_deep_merge\<close> and \<open>u_deep_merge_items\<close> is its \<^verbatim>\<open>for\<close> loop. The
  Python functions update \<^verbatim>\<open>destination\<close> in place; the model returns the updated
  destination. The destination is always a copy made by this very call chain, and every
  value stored into it is a copy or a new list, so the result is described by values
  alone.

  A destination that is not a dict has no \<^verbatim>\<open>setdefault\<close> (\<^verbatim>\<open>AttributeError\<close>). With a
  string key, \<^verbatim>\<open>key in destination\<close>, \<^verbatim>\<open>destination[key]\<close> and
  \<^verbatim>\<open>destination[key] = value\<close> raise \<^verbatim>\<open>TypeError\<close> on every value that is not a dict: an
  atomic value is not iterable and supports no item assignment, and a list, tuple or
  string passes the membership test but takes no string index.
\<close>

fun weight :: "value \<Rightarrow> nat" where
  "weight (Atom _) = 1"
| "weight (VList xs) = Suc (sum_list (map weight xs))"
| "weight (VTuple xs) = Suc (sum_list (map weight xs))"
| "weight (VDict d) = Suc (sum_list (map (\<lambda>kv. weight (snd kv)) d))"

lemma weight_pos: "0 < weight v"
  by (cases v) simp_all

lemma weight_butlast:
  "xs \<noteq> [] \<Longrightarrow> sum_list (map weight (butlast xs)) + weight (last xs) = sum_list (map weight xs)"
  by (induction xs) auto

lemma weight_tl_butlast:
  assumes "args \<noteq> []" "length args \<noteq> Suc 0"
  shows "sum_list (map weight (tl (butlast args))) < sum_list (map weight (tl args))"
    and "weight (last args) \<le> sum_list (map weight (tl args))"
proof -
  from assms obtain a rest where args: "args = a # rest" and rest: "rest \<noteq> []"
    by (cases args) auto
  have "sum_list (map weight (butlast rest)) + weight (last rest) = sum_list (map weight rest)"
    using rest by (rule weight_butlast)
  moreover have "0 < weight (last rest)" by (rule weight_pos)
  ultimately show "sum_list (map weight (tl (butlast args))) < sum_list (map weight (tl args))"
    and "weight (last args) \<le> sum_list (map weight (tl args))"
    using args rest by auto
qed

text \<open>
  Termination: the sources only get smaller. The recursion never looks at the size of the
  destination, which is the result of an inner call.
\<close>

function deep_merge :: "value list \<Rightarrow> error + value"
  and u_deep_merge :: "value \<Rightarrow> value \<Rightarrow> error + value"
  and u_deep_merge_items :: "value \<Rightarrow> (string \<times> value) list \<Rightarrow> error + value"
  and deep_merge_item :: "value \<Rightarrow> string \<Rightarrow> value \<Rightarrow> error + value"
where
  "deep_merge args =
     (if length args = 0 then Inr PyNone
      else if length args = 1 then Inr (deepcopy (args ! 0))
      else (let lst = butlast args; last = deepcopy (last args)
            in case deep_merge lst of
                 Inl e \<Rightarrow> Inl e
               | Inr destination \<Rightarrow> u_deep_merge destination last))"
| "u_deep_merge destination source =
     (case source of
        VDict items \<Rightarrow> u_deep_merge_items destination items
      | _ \<Rightarrow> Inr PyNone)"
| "u_deep_merge_items destination [] = Inr destination"
| "u_deep_merge_items destination ((key, v) # items) =
     (case deep_merge_item destination key v of
        Inl e \<Rightarrow> Inl e
      | Inr destination' \<Rightarrow> u_deep_merge_items destination' items)"
| "deep_merge_item destination key v =
     (if is_dict v then
        (case destination of
           VDict d \<Rightarrow>
             (case setdefault key (VDict []) d of
                (node, d') \<Rightarrow>
                  (case deep_merge [node, v] of
                     Inl e \<Rightarrow> Inl e
                   | Inr merged \<Rightarrow> Inr (VDict (AList.update key merged d'))))
         | _ \<Rightarrow> Inl AttributeError)
      else if is_tuple v \<or> is_list v then
        (case destination of
           VDict d \<Rightarrow>
             (if dict_contains key d
              then (case py_list v of
                      Inl e \<Rightarrow> Inl e
                    | Inr new \<Rightarrow>
                        (case py_list (the (map_of d key)) of
                           Inl e \<Rightarrow> Inl e
                         | Inr old \<Rightarrow> Inr (VDict (AList.update key (VList (new @ old)) d))))
              else Inr (VDict (AList.update key v d)))
         | _ \<Rightarrow> Inl TypeError)
      else
        (case destination of
           VDict d \<Rightarrow> Inr (VDict (AList.update key v d))
         | _ \<Rightarrow> Inl TypeError))"
  by pat_completeness auto

termination
proof (relation "measure
     (\<lambda>x. case x of
        Inl (Inl args) \<Rightarrow> 4 * sum_list (map weight (tl args)) + 2
      | Inl (Inr (d, s)) \<Rightarrow> 4 * weight s + 1
      | Inr (Inl (d, items)) \<Rightarrow> 4 * sum_list (map (\<lambda>kv. weight (snd kv)) items) + 4
      | Inr (Inr (d, k, v)) \<Rightarrow> 4 * weight v + 3)", goal_cases)
  case 1
  show ?case by simp
next
  case (2 args)
  then show ?case using weight_tl_butlast(1)[of args] by simp
next
  case (3 args lst lasta destination)
  then show ?case using weight_tl_butlast(2)[of args] by (simp add: deepcopy_def)
next
  case (4 destination source items)
  then show ?case by simp
next
  case (5 destination key v items)
  then show ?case by simp
next
  case (6 destination key v items destination')
  then show ?case using weight_pos[of v] by simp
next
  case (7 destination key v)
  then show ?case by simp
qed

declare deep_merge.simps [simp del]
declare u_deep_merge.simps [simp del]
declare deep_merge_item.simps [simp del]

section \<open>The object store\<close>

text \<open>
  \<^verbatim>\<open>deep_map\<close> is specified on inputs that may contain themselves, and a deep copy is
  specified by what it does not share; both need objects with identity. A container is an
  object at an address of the store, and a value of the store is an atomic value or a
  reference to a container. Every address holds some object, so that no reference
  dangles. \<open>repr h v t\<close> says that, in the store \<open>h\<close>, the value \<open>v\<close> is the tree \<open>t\<close>, and
  \<open>reach h v r\<close> that the container at \<open>r\<close> is \<open>v\<close> itself or is contained in it,
  directly or not.
\<close>

type_synonym addr = nat

datatype hval = HAtom atom | HRef addr

datatype obj = OList "hval list" | OTuple "hval list" | ODict "(string \<times> hval) list"

type_synonym heap = "addr \<Rightarrow> obj"

fun children :: "obj \<Rightarrow> hval list" where
  "children (OList vs) = vs"
| "children (OTuple vs) = vs"
| "children (ODict kvs) = map snd kvs"

inductive repr :: "heap \<Rightarrow> hval \<Rightarrow> value \<Rightarrow> bool" for h where
  repr_atom: "repr h (HAtom a) (Atom a)"
| repr_list: "h r = OList vs \<Longrightarrow> list_all2 (repr h) vs ts \<Longrightarrow> repr h (HRef r) (VList ts)"
| repr_tuple: "h r = OTuple vs \<Longrightarrow> list_all2 (repr h) vs ts \<Longrightarrow> repr h (HRef r) (VTuple ts)"
| repr_dict: "h r = ODict kvs \<Longrightarrow> map fst kvs = map fst kts \<Longrightarrow>
     list_all2 (repr h) (map snd kvs) (map snd kts) \<Longrightarrow> repr h (HRef r) (VDict kts)"

code_pred repr .

inductive reach :: "heap \<Rightarrow> hval \<Rightarrow> addr \<Rightarrow> bool" for h where
  reach_self: "reach h (HRef r) r"
| reach_child: "c \<in> set (children (h r)) \<Longrightarrow> reach h c r' \<Longrightarrow> reach h (HRef r) r'"

code_pred reach .

text \<open>
  A value contains a reference cycle when it reaches a container that is reached again
  from one of that container's own elements.
\<close>

definition has_cycle :: "heap \<Rightarrow> hval \<Rightarrow> bool" where
  "has_cycle h v \<longleftrightarrow> (\<exists>r. reach h v r \<and> (\<exists>c \<in> set (children (h r)). reach h c r))"

fun is_otuple :: "obj \<Rightarrow> bool" where
  "is_otuple (OTuple _) = True"
| "is_otuple _ = False"

text \<open>Every container that the value reaches is a list or a dict.\<close>

definition tree_shaped :: "heap \<Rightarrow> hval \<Rightarrow> bool" where
  "tree_shaped h v \<longleftrightarrow> (\<forall>r. reach h v r \<longrightarrow> \<not> is_otuple (h r))"

text \<open>\<open>nests h n v\<close>: below \<open>v\<close> there is a chain of \<open>n\<close> containers, each inside the one before.\<close>

fun nests :: "heap \<Rightarrow> nat \<Rightarrow> hval \<Rightarrow> bool" where
  "nests h 0 v = True"
| "nests h (Suc n) v =
     (case v of HRef r \<Rightarrow> (\<exists>c \<in> set (children (h r)). nests h n c) | HAtom _ \<Rightarrow> False)"

text \<open>
  A well-formed Tree has lists, dicts and atomic values only. \<open>frames t\<close> is the number of
  nested activations of a recursive walk that reaches the deepest leaf of \<open>t\<close>.
\<close>

fun is_tree :: "value \<Rightarrow> bool" where
  "is_tree (Atom _) = True"
| "is_tree (VList ts) = list_all is_tree ts"
| "is_tree (VTuple _) = False"
| "is_tree (VDict kts) = list_all (\<lambda>kt. is_tree (snd kt)) kts"

fun frames :: "value \<Rightarrow> nat" where
  "frames (Atom _) = 1"
| "frames (VList ts) = Suc (fold max (map frames ts) 0)"
| "frames (VTuple ts) = Suc (fold max (map frames ts) 0)"
| "frames (VDict kts) = Suc (fold max (map (\<lambda>kt. frames (snd kt)) kts) 0)"

section \<open>deep\_map\<close>

text \<open>
  \<^verbatim>\<open>
  def _deep_map(func, value, keypath):
      atomic_types = (int, float, str, type(None), bool)
      if isinstance(value, list):
          ret = [_deep_map(func, v, (keypath + (idx,))) for idx, v in enumerate(value)]
      elif isinstance(value, dict):
          ret = {k: _deep_map(func, v, (keypath + (str(k),))) for k, v in value.items()}
      elif isinstance(value, atomic_types):
          ret = func(value, keypath)
      else:
          raise dbt.exceptions.DbtConfigError(...)
      return ret

  def deep_map(func, value):
      try:
          return _deep_map(func, value, ())
      except RuntimeError as exc:
          if 'maximum recursion depth exceeded' in str(exc):
              raise dbt.exceptions.RecursionException('Cycle detected in deep_map')
          raise
  \<close>
  \<open>u_deep_map\<close> is \<^verbatim>\<open>_deep_map\<close>. A keypath is a list of segments, a dict key or a list
  index; a key is a string, so \<^verbatim>\<open>str(k)\<close> is \<open>k\<close>. The result is built of new lists and
  dicts and of what \<open>func\<close> returns, so it is a value of type \<open>value\<close>; \<open>func\<close> may raise.

  The interpreter's recursion limit is not in the source: it is the first parameter, the
  number of nested activations of \<^verbatim>\<open>_deep_map\<close> that are still allowed. An activation beyond
  it raises Python's \<^verbatim>\<open>RecursionError\<close>, a \<^verbatim>\<open>RuntimeError\<close> whose message starts with
  \<open>recursion_msg\<close>. The comprehensions evaluate their elements from left to right and the
  first exception ends them: \<open>sequence\<close>. \<^verbatim>\<open>DbtConfigError\<close> passes through \<^verbatim>\<open>deep_map\<close>
  unchanged whether or not it derives from \<^verbatim>\<open>RuntimeError\<close>, since its message does not
  contain the text tested for.
\<close>

datatype seg = Key string | Idx nat

type_synonym keypath = "seg list"

definition recursion_msg :: string where
  "recursion_msg = ''maximum recursion depth exceeded''"

fun sequence :: "(error + 'a) list \<Rightarrow> error + 'a list" where
  "sequence [] = Inr []"
| "sequence (Inl e # _) = Inl e"
| "sequence (Inr x # rs) = (case sequence rs of Inl e \<Rightarrow> Inl e | Inr xs \<Rightarrow> Inr (x # xs))"

fun u_deep_map ::
  "nat \<Rightarrow> heap \<Rightarrow> (atom \<Rightarrow> keypath \<Rightarrow> error + value) \<Rightarrow> hval \<Rightarrow> keypath \<Rightarrow> error + value" where
  "u_deep_map 0 h func v keypath = Inl (RuntimeError recursion_msg)"
| "u_deep_map (Suc depth) h func v keypath =
     (case v of
        HRef r \<Rightarrow>
          (case h r of
             OList vs \<Rightarrow>
               (case sequence (map (\<lambda>(idx, x). u_deep_map depth h func x (keypath @ [Idx idx]))
                                   (enumerate 0 vs)) of
                  Inl e \<Rightarrow> Inl e
                | Inr ret \<Rightarrow> Inr (VList ret))
           | ODict kvs \<Rightarrow>
               (case sequence (map (\<lambda>(k, x). case u_deep_map depth h func x (keypath @ [Key k]) of
                                                 Inl e \<Rightarrow> Inl e
                                               | Inr y \<Rightarrow> Inr (k, y)) kvs) of
                  Inl e \<Rightarrow> Inl e
                | Inr ret \<Rightarrow> Inr (VDict ret))
           | OTuple _ \<Rightarrow> Inl DbtConfigError)
      | HAtom a \<Rightarrow> func a keypath)"

definition deep_map ::
  "nat \<Rightarrow> heap \<Rightarrow> (atom \<Rightarrow> keypath \<Rightarrow> error + value) \<Rightarrow> hval \<Rightarrow> error + value" where
  "deep_map limit h func v =
     (case u_deep_map limit h func v [] of
        Inl (RuntimeError msg) \<Rightarrow>
          (if sublist ''maximum recursion depth exceeded'' msg then Inl RecursionException
           else Inl (RuntimeError msg))
      | Inl e \<Rightarrow> Inl e
      | Inr ret \<Rightarrow> Inr ret)"

text \<open>
  What the specification says \<^verbatim>\<open>deep_map\<close> computes, in its own words: \<open>tree_map fn t p\<close> is
  the tree of the shape of \<open>t\<close> in which every leaf \<open>a\<close> is replaced by \<open>fn a q\<close>, where \<open>q\<close>
  is \<open>p\<close> followed by the keys and indices from the root of \<open>t\<close> to the leaf. \<open>subtree\<close>
  follows a keypath, and \<open>same_shape t u\<close> says that \<open>u\<close> has the lists and dicts of \<open>t\<close>,
  with the same lengths and the same keys in the same order, and anything at all in the
  place of a leaf of \<open>t\<close>.
\<close>

lemma weight_member: "t \<in> set ts \<Longrightarrow> weight t \<le> sum_list (map weight ts)"
  by (induction ts) auto

lemma weight_item: "(k, t) \<in> set kts \<Longrightarrow> weight t \<le> sum_list (map (\<lambda>kt. weight (snd kt)) kts)"
  by (induction kts) auto

function tree_map :: "(atom \<Rightarrow> keypath \<Rightarrow> value) \<Rightarrow> value \<Rightarrow> keypath \<Rightarrow> value" where
  "tree_map fn (Atom a) p = fn a p"
| "tree_map fn (VList ts) p = VList (map (\<lambda>(i, t). tree_map fn t (p @ [Idx i])) (enumerate 0 ts))"
| "tree_map fn (VDict kts) p = VDict (map (\<lambda>(k, t). (k, tree_map fn t (p @ [Key k]))) kts)"
| "tree_map fn (VTuple ts) p = VTuple ts"
  by pat_completeness auto

termination
proof (relation "measure (\<lambda>(fn, t, p). weight t)", goal_cases)
  case 1
  show ?case by simp
next
  case (2 fn ts p x i t)
  then have "t \<in> set ts" by (auto simp: in_set_enumerate_eq)
  from weight_member[OF this] show ?case by simp
next
  case (3 fn kts p x k t)
  from weight_item[of k t kts] 3 show ?case by simp
qed

fun same_shape :: "value \<Rightarrow> value \<Rightarrow> bool" where
  "same_shape (Atom a) u = True"
| "same_shape (VList ts) (VList us) = list_all2 same_shape ts us"
| "same_shape (VDict kts) (VDict kus) =
     (map fst kts = map fst kus \<and> list_all2 same_shape (map snd kts) (map snd kus))"
| "same_shape _ _ = False"

fun subtree :: "value \<Rightarrow> keypath \<Rightarrow> value option" where
  "subtree t [] = Some t"
| "subtree (VList ts) (Idx i # p) = (if i < length ts then subtree (ts ! i) p else None)"
| "subtree (VDict kts) (Key k # p) = (case map_of kts k of Some t \<Rightarrow> subtree t p | None \<Rightarrow> None)"
| "subtree _ (_ # _) = None"

text \<open>A keypath segment as the Python value it is, a \<^verbatim>\<open>str\<close> or an \<^verbatim>\<open>int\<close>.\<close>

fun seg_value :: "seg \<Rightarrow> value" where
  "seg_value (Key k) = PyStr k"
| "seg_value (Idx i) = PyInt (int i)"

section \<open>copy.deepcopy on the store\<close>

text \<open>
  A store is its cells and the next free address; \<open>alloc\<close> puts a new object there.
\<close>

record store =
  cells :: heap
  nxt :: addr

definition alloc :: "obj \<Rightarrow> store \<Rightarrow> hval \<times> store" where
  "alloc ob st = (HRef (nxt st), st\<lparr>cells := (cells st)(nxt st := ob), nxt := Suc (nxt st)\<rparr>)"

text \<open>
  Modelled from the spec: \<^verbatim>\<open>copy.deepcopy\<close> is the Python standard library's, and its code
  is not part of the repository. The specification asks of the one-argument merge "a full
  deep copy of that argument (result must not alias any container reachable from the
  input)": \<open>copy_deepcopy\<close> copies the elements of a container, one after the other, and
  then allocates a new container holding the copies; an atomic value is its own copy. The
  library's memo table, which keeps sharing inside the copy and ends the copy of a cyclic
  argument, is not modelled, and the first parameter bounds the depth of the recursion as
  for \<^verbatim>\<open>deep_map\<close>.
\<close>

fun copy_deepcopy :: "nat \<Rightarrow> hval \<Rightarrow> store \<Rightarrow> error + hval \<times> store"
  and copy_elements :: "nat \<Rightarrow> hval list \<Rightarrow> store \<Rightarrow> error + hval list \<times> store" where
  "copy_deepcopy 0 x st = Inl (RuntimeError recursion_msg)"
| "copy_deepcopy (Suc depth) (HAtom a) st = Inr (HAtom a, st)"
| "copy_deepcopy (Suc depth) (HRef r) st =
     (case cells st r of
        OList vs \<Rightarrow>
          (case copy_elements depth vs st of
             Inl e \<Rightarrow> Inl e
           | Inr (ys, st') \<Rightarrow> Inr (alloc (OList ys) st'))
      | OTuple vs \<Rightarrow>
          (case copy_elements depth vs st of
             Inl e \<Rightarrow> Inl e
           | Inr (ys, st') \<Rightarrow> Inr (alloc (OTuple ys) st'))
      | ODict kvs \<Rightarrow>
          (case copy_elements depth (map snd kvs) st of
             Inl e \<Rightarrow> Inl e
           | Inr (ys, st') \<Rightarrow> Inr (alloc (ODict (zip (map fst kvs) ys)) st')))"
| "copy_elements depth [] st = Inr ([], st)"
| "copy_elements depth (x # xs) st =
     (case copy_deepcopy depth x st of
        Inl e \<Rightarrow> Inl e
      | Inr (y, st') \<Rightarrow>
          (case copy_elements depth xs st' of
             Inl e \<Rightarrow> Inl e
           | Inr (ys, st'') \<Rightarrow> Inr (y # ys, st'')))"

text \<open>
  The call \<^verbatim>\<open>deep_merge(x)\<close> on the store, that is the branch
  \<^verbatim>\<open>if len(args) == 1: return copy.deepcopy(args[0])\<close>.
\<close>

definition deep_merge_one :: "nat \<Rightarrow> hval \<Rightarrow> store \<Rightarrow> error + hval \<times> store" where
  "deep_merge_one depth x st = copy_deepcopy depth x st"

text \<open>
  A store is closed when the containers below its next free address refer to such
  containers only, as in a Python heap. \<open>extends st st'\<close>: the store \<open>st'\<close> has the
  containers of \<open>st\<close>, unchanged, and new ones that refer to new ones only.
\<close>

definition below :: "addr \<Rightarrow> hval \<Rightarrow> bool" where
  "below n v = (case v of HAtom _ \<Rightarrow> True | HRef r \<Rightarrow> r < n)"

definition closed :: "store \<Rightarrow> bool" where
  "closed st \<longleftrightarrow> (\<forall>r < nxt st. \<forall>c \<in> set (children (cells st r)). below (nxt st) c)"

definition within :: "addr \<Rightarrow> addr \<Rightarrow> hval \<Rightarrow> bool" where
  "within lo hi v = (case v of HAtom _ \<Rightarrow> True | HRef r \<Rightarrow> lo \<le> r \<and> r < hi)"

definition extends :: "store \<Rightarrow> store \<Rightarrow> bool" where
  "extends st st' \<longleftrightarrow>
     nxt st \<le> nxt st' \<and> (\<forall>r < nxt st. cells st' r = cells st r) \<and>
     (\<forall>r. nxt st \<le> r \<longrightarrow> r < nxt st' \<longrightarrow>
        (\<forall>c \<in> set (children (cells st' r)). within (nxt st) (nxt st') c))"

section \<open>MultiDict\<close>

text \<open>
  \<^verbatim>\<open>class MultiDict(Mapping[str, Any])\<close> holds one field, the list \<^verbatim>\<open>sources\<close>;
  \<^verbatim>\<open>add\<close> appends to it and \<^verbatim>\<open>_itersource\<close> walks it reversed.
\<close>

record MultiDict =
  sources :: "pydict list"

definition add :: "MultiDict \<Rightarrow> pydict \<Rightarrow> MultiDict" where
  "add self source = self\<lparr>sources := sources self @ [source]\<rparr>"

definition add_from :: "MultiDict \<Rightarrow> pydict list \<Rightarrow> MultiDict" where
  "add_from self srcs = self\<lparr>sources := sources self @ srcs\<rparr>"

definition u_itersource :: "MultiDict \<Rightarrow> pydict list" where
  "u_itersource self = rev (sources self)"

text \<open>
  \<^verbatim>\<open>
  def __getitem__(self, name):
      for entry in self._itersource():
          if name in entry:
              return entry[name]
      raise KeyError(name)
  \<close>
  The loop over the entries is \<open>getitem_loop\<close>.
\<close>

fun getitem_loop :: "pydict list \<Rightarrow> string \<Rightarrow> error + value" where
  "getitem_loop [] name = Inl (KeyError name)"
| "getitem_loop (entry # entries) name =
     (if dict_contains name entry then Inr (the (map_of entry name))
      else getitem_loop entries name)"

definition getitem :: "MultiDict \<Rightarrow> string \<Rightarrow> error + value" where
  "getitem self name = getitem_loop (u_itersource self) name"

definition contains :: "MultiDict \<Rightarrow> string \<Rightarrow> bool" where
  "contains self name = list_ex (\<lambda>entry. dict_contains name entry) (u_itersource self)"

section \<open>MultiDict lookup\<close>

lemma getitem_loop_KeyError:
  "getitem_loop es name = Inl e \<longleftrightarrow> e = KeyError name \<and> (\<forall>entry \<in> set es. \<not> dict_contains name entry)"
  by (induction es) auto

lemma getitem_loop_first:
  "\<forall>entry \<in> set newer. \<not> dict_contains name entry \<Longrightarrow> map_of entry name = Some v \<Longrightarrow>
   getitem_loop (newer @ entry # older) name = Inr v"
  by (induction newer) (auto simp: dict_contains_def)

text \<open>
  C6. Lookup in a MultiDict returns the value of the most recently appended source that
  contains the key: if a source holds \<open>v\<close> at the key and no source appended after it
  contains the key, the result is \<open>v\<close>. The lookup raises \<^verbatim>\<open>KeyError\<close> exactly when no source
  contains the key, and it raises nothing else. With the sources \<^verbatim>\<open>[{"x": 1}, {"x": 2}]\<close>
  the lookup of \<^verbatim>\<open>"x"\<close> gives 2, and after appending \<^verbatim>\<open>{"x": 3}\<close> it gives 3.
\<close>

theorem getitem_most_recent_wins:
  "(sources self = older @ entry # newer \<and> map_of entry name = Some v \<and>
      (\<forall>e \<in> set newer. \<not> dict_contains name e) \<longrightarrow> getitem self name = Inr v)
   \<and> (getitem self name = Inl err \<longleftrightarrow>
        err = KeyError name \<and> (\<forall>e \<in> set (sources self). \<not> dict_contains name e))
   \<and> getitem \<lparr>sources = [[(''x'', PyInt 1)], [(''x'', PyInt 2)]]\<rparr> ''x'' = Inr (PyInt 2)
   \<and> getitem (add \<lparr>sources = [[(''x'', PyInt 1)], [(''x'', PyInt 2)]]\<rparr> [(''x'', PyInt 3)]) ''x''
        = Inr (PyInt 3)"
proof (intro conjI impI)
  assume a: "sources self = older @ entry # newer \<and> map_of entry name = Some v \<and>
      (\<forall>e \<in> set newer. \<not> dict_contains name e)"
  then have "u_itersource self = rev newer @ entry # rev older"
    by (simp add: u_itersource_def)
  moreover from a have "\<forall>e \<in> set (rev newer). \<not> dict_contains name e" by simp
  ultimately show "getitem self name = Inr v"
    using a getitem_loop_first[of "rev newer" name entry v "rev older"]
    by (simp add: getitem_def)
next
  show "getitem self name = Inl err \<longleftrightarrow>
        err = KeyError name \<and> (\<forall>e \<in> set (sources self). \<not> dict_contains name e)"
    by (simp add: getitem_def u_itersource_def getitem_loop_KeyError)
next
  show "getitem \<lparr>sources = [[(''x'', PyInt 1)], [(''x'', PyInt 2)]]\<rparr> ''x'' = Inr (PyInt 2)"
    by (simp add: getitem_def u_itersource_def dict_contains_def)
next
  show "getitem (add \<lparr>sources = [[(''x'', PyInt 1)], [(''x'', PyInt 2)]]\<rparr> [(''x'', PyInt 3)]) ''x''
        = Inr (PyInt 3)"
    by (simp add: getitem_def u_itersource_def dict_contains_def add_def)
qed

theorem getitem_most_recent_wins_witness:
  "getitem \<lparr>sources = [[(''x'', PyInt 1)], [(''x'', PyInt 2)], [(''y'', PyInt 5)]]\<rparr> ''x'' = Inr (PyInt 2)
   \<and> getitem \<lparr>sources = [[(''x'', PyInt 1)]]\<rparr> ''z'' = Inl (KeyError ''z'')"
proof -
  let ?self = "\<lparr>sources = [[(''x'', PyInt 1)], [(''x'', PyInt 2)], [(''y'', PyInt 5)]]\<rparr>"
  have h: "sources ?self = [[(''x'', PyInt 1)]] @ [(''x'', PyInt 2)] # [[(''y'', PyInt 5)]]
      \<and> map_of [(''x'', PyInt 2)] ''x'' = Some (PyInt 2)
      \<and> (\<forall>e \<in> set [[(''y'', PyInt 5)]]. \<not> dict_contains ''x'' e)"
    by (simp add: dict_contains_def)
  have 1: "getitem ?self ''x'' = Inr (PyInt 2)"
    using getitem_most_recent_wins[of ?self "[[(''x'', PyInt 1)]]" "[(''x'', PyInt 2)]"
        "[[(''y'', PyInt 5)]]" "''x''" "PyInt 2"] h by blast
  have "\<forall>e \<in> set (sources \<lparr>sources = [[(''x'', PyInt 1)]]\<rparr>). \<not> dict_contains ''z'' e"
    by (simp add: dict_contains_def)
  then have 2: "getitem \<lparr>sources = [[(''x'', PyInt 1)]]\<rparr> ''z'' = Inl (KeyError ''z'')"
    using getitem_most_recent_wins[of "\<lparr>sources = [[(''x'', PyInt 1)]]\<rparr>" "[]" "[]" "[]" "''z''"
        PyNone "KeyError ''z''"] by blast
  from 1 2 show ?thesis by simp
qed

section \<open>Hierarchical search\<close>

lemma fqn_search_loop_elements:
  "i < length (fst (fqn_search_loop root fqn)) \<Longrightarrow>
   i < length fqn \<and> get_path root (take (Suc i) fqn) = Some (fst (fqn_search_loop root fqn) ! i)
     \<and> fst (fqn_search_loop root fqn) ! i \<noteq> PyNone"
proof (induction root fqn arbitrary: i rule: fqn_search_loop.induct)
  case (1 root)
  then show ?case by simp
next
  case (2 root level fqn)
  show ?case
  proof (cases root)
    case (VDict d)
    show ?thesis
    proof (cases "map_of d level")
      case None
      with VDict "2.prems" show ?thesis by simp
    next
      case (Some c)
      show ?thesis
      proof (cases "c = PyNone")
        case True
        with VDict Some "2.prems" show ?thesis by simp
      next
        case False
        obtain ys e where l: "fqn_search_loop c fqn = (ys, e)" by (cases "fqn_search_loop c fqn")
        have eq: "fst (fqn_search_loop root (level # fqn)) = c # ys"
          using VDict Some False l by (simp add: deepcopy_def)
        show ?thesis
        proof (cases i)
          case 0
          then show ?thesis using eq VDict Some False by simp
        next
          case (Suc j)
          with "2.prems" eq l have j: "j < length (fst (fqn_search_loop c fqn))" by simp
          from "2.IH"[OF VDict _ _ j] Some False
          have "j < length fqn \<and> get_path c (take (Suc j) fqn) = Some (fst (fqn_search_loop c fqn) ! j)
            \<and> fst (fqn_search_loop c fqn) ! j \<noteq> PyNone" by simp
          then show ?thesis using eq VDict Some Suc l by simp
        qed
      qed
    qed
  qed (use "2.prems" in simp_all)
qed

lemma fqn_search_loop_stop:
  "fqn_search_loop root fqn = (ys, e) \<Longrightarrow> length ys < length fqn \<Longrightarrow>
   (\<exists>v. get_path root (take (length ys) fqn) = Some v \<and>
      (if is_dict v then e = None \<and> level_get v (fqn ! length ys) = PyNone
       else e = Some AttributeError))"
proof (induction root fqn arbitrary: ys e rule: fqn_search_loop.induct)
  case (1 root)
  then show ?case by simp
next
  case (2 root level fqn)
  show ?case
  proof (cases root)
    case (VDict d)
    show ?thesis
    proof (cases "map_of d level")
      case None
      with VDict "2.prems" show ?thesis by auto
    next
      case (Some c)
      show ?thesis
      proof (cases "c = PyNone")
        case True
        with VDict Some "2.prems" show ?thesis by auto
      next
        case False
        obtain zs e' where l: "fqn_search_loop c fqn = (zs, e')" by (cases "fqn_search_loop c fqn")
        with VDict Some False "2.prems"(1) have ys: "ys = c # zs" and e: "e = e'"
          by (simp_all add: deepcopy_def)
        with "2.prems"(2) have "length zs < length fqn" by simp
        from "2.IH"[OF VDict _ _ l this] Some False
        have "\<exists>v. get_path c (take (length zs) fqn) = Some v \<and>
          (if is_dict v then e' = None \<and> level_get v (fqn ! length zs) = PyNone
           else e' = Some AttributeError)" by simp
        then show ?thesis using ys e VDict Some by (auto split: if_splits)
      qed
    qed
  qed (use "2.prems" in auto)
qed

lemma fqn_search_loop_complete:
  "fqn_search_loop root fqn = (ys, e) \<Longrightarrow> length ys \<le> length fqn \<and> (length ys = length fqn \<longrightarrow> e = None)"
proof (induction root fqn arbitrary: ys e rule: fqn_search_loop.induct)
  case (1 root)
  then show ?case by simp
next
  case (2 root level fqn)
  show ?case
  proof (cases root)
    case (VDict d)
    obtain zs e' where l: "fqn_search_loop (case map_of d level of Some c \<Rightarrow> c | None \<Rightarrow> PyNone) fqn = (zs, e')"
      by (cases "fqn_search_loop (case map_of d level of Some c \<Rightarrow> c | None \<Rightarrow> PyNone) fqn")
    show ?thesis
    proof (cases "(case map_of d level of Some c \<Rightarrow> c | None \<Rightarrow> PyNone) = PyNone")
      case True
      with VDict "2.prems" show ?thesis by (auto simp: Let_def)
    next
      case False
      from "2.IH"[OF VDict refl False l] "2.prems" VDict False l show ?thesis
        by (auto simp: Let_def)
    qed
  qed (use "2.prems" in auto)
qed


lemma fqn_search_spec:
  assumes "fqn_search root fqn = (ys, e)"
  shows "ys \<noteq> [] \<and> length ys \<le> Suc (length fqn)
     \<and> (\<forall>i < length ys. get_path root (take i fqn) = Some (ys ! i))
     \<and> (\<forall>i. 0 < i \<longrightarrow> i < length ys \<longrightarrow> ys ! i \<noteq> PyNone)
     \<and> (length ys = Suc (length fqn) \<longrightarrow> e = None)
     \<and> (length ys \<le> length fqn \<longrightarrow>
          (\<exists>v. get_path root (take (length ys - 1) fqn) = Some v \<and>
             (if is_dict v then e = None \<and> level_get v (fqn ! (length ys - 1)) = PyNone
              else e = Some AttributeError)))"
proof -
  obtain zs where l: "fqn_search_loop root fqn = (zs, e)" and ys: "ys = root # zs"
    using assms by (auto simp: fqn_search_def split: prod.splits)
  have el: "get_path root (take i fqn) = Some (ys ! i) \<and> (0 < i \<longrightarrow> ys ! i \<noteq> PyNone)"
    if "i < length ys" for i
  proof (cases i)
    case 0
    then show ?thesis using ys by simp
  next
    case (Suc j)
    with that ys l have "j < length (fst (fqn_search_loop root fqn))" by simp
    from fqn_search_loop_elements[OF this] l ys Suc show ?thesis by simp
  qed
  have c: "length zs \<le> length fqn \<and> (length zs = length fqn \<longrightarrow> e = None)"
    using fqn_search_loop_complete[OF l] .
  have st: "\<exists>v. get_path root (take (length ys - 1) fqn) = Some v \<and>
             (if is_dict v then e = None \<and> level_get v (fqn ! (length ys - 1)) = PyNone
              else e = Some AttributeError)" if "length ys \<le> length fqn"
  proof -
    from that ys have "length zs < length fqn" by simp
    from fqn_search_loop_stop[OF l this] ys show ?thesis by (auto split: if_splits)
  qed
  from el c st ys show ?thesis by auto
qed

text \<open>
  C1, as the code has it. \<^verbatim>\<open>fqn_search\<close> yields the root first; with no segment left it
  ends there. At a segment \<open>s\<close> whose key the current dict holds with a value other than
  \<^verbatim>\<open>None\<close>, it yields that value (a deep copy of it) and goes on from it with the remaining
  segments. It stops, with no error, as soon as the segment is absent from the current
  dict or the value stored at it is \<^verbatim>\<open>None\<close>: \<^verbatim>\<open>root.get(level, None)\<close> does not tell the
  two apart. So the values yielded are at most one more than the segments, the one at
  position \<open>i\<close> is the value found by following the first \<open>i\<close> segments from the root, none
  after the root is \<^verbatim>\<open>None\<close>, and a search that ends normally before the last segment ends
  at a dict in which the next segment is absent or holds \<^verbatim>\<open>None\<close>.
\<close>

theorem fqn_search_descends:
  "fqn_search root [] = ([root], None)
   \<and> (map_of d s = Some v \<and> v \<noteq> PyNone \<longrightarrow>
        fqn_search (VDict d) (s # rest) = (VDict d # fst (fqn_search v rest), snd (fqn_search v rest)))
   \<and> (map_of d s = None \<or> map_of d s = Some PyNone \<longrightarrow>
        fqn_search (VDict d) (s # rest) = ([VDict d], None))
   \<and> (fqn_search root fqn = (ys, e) \<longrightarrow>
        ys \<noteq> [] \<and> length ys \<le> Suc (length fqn)
        \<and> (\<forall>i < length ys. get_path root (take i fqn) = Some (ys ! i))
        \<and> (\<forall>i. 0 < i \<longrightarrow> i < length ys \<longrightarrow> ys ! i \<noteq> PyNone)
        \<and> (e = None \<and> length ys \<le> length fqn \<longrightarrow>
              (\<exists>dl. get_path root (take (length ys - 1) fqn) = Some (VDict dl)
                 \<and> (map_of dl (fqn ! (length ys - 1)) = None
                      \<or> map_of dl (fqn ! (length ys - 1)) = Some PyNone))))"
proof (intro conjI impI)
  show "fqn_search root [] = ([root], None)" by (simp add: fqn_search_def)
next
  assume "map_of d s = Some v \<and> v \<noteq> PyNone"
  then show "fqn_search (VDict d) (s # rest) = (VDict d # fst (fqn_search v rest), snd (fqn_search v rest))"
    by (auto simp: fqn_search_def deepcopy_def split: prod.splits)
next
  assume "map_of d s = None \<or> map_of d s = Some PyNone"
  then show "fqn_search (VDict d) (s # rest) = ([VDict d], None)"
    by (auto simp: fqn_search_def)
next
  assume a: "fqn_search root fqn = (ys, e)"
  note sp = fqn_search_spec[OF a]
  from sp show "ys \<noteq> []" by blast
  from sp show "length ys \<le> Suc (length fqn)" by blast
  from sp show "\<forall>i < length ys. get_path root (take i fqn) = Some (ys ! i)" by blast
  from sp show "\<forall>i. 0 < i \<longrightarrow> i < length ys \<longrightarrow> ys ! i \<noteq> PyNone" by blast
next
  assume a: "fqn_search root fqn = (ys, e)" and b: "e = None \<and> length ys \<le> length fqn"
  from fqn_search_spec[OF a] b obtain v where v: "get_path root (take (length ys - 1) fqn) = Some v"
    and c: "if is_dict v then e = None \<and> level_get v (fqn ! (length ys - 1)) = PyNone
              else e = Some AttributeError" by blast
  from c b obtain dl where dl: "v = VDict dl" by (cases v) auto
  with c have "map_of dl (fqn ! (length ys - 1)) = None \<or> map_of dl (fqn ! (length ys - 1)) = Some PyNone"
    by (auto split: option.splits)
  with v dl show "\<exists>dl. get_path root (take (length ys - 1) fqn) = Some (VDict dl)
                 \<and> (map_of dl (fqn ! (length ys - 1)) = None
                      \<or> map_of dl (fqn ! (length ys - 1)) = Some PyNone)" by blast
qed

theorem fqn_search_descends_witness:
  "fqn_search (VDict [(''pkgA'', VDict [(''modelA'', VDict [(''timeout'', PyInt 5)])])]) [''pkgA'', ''modelA'']
     = ([VDict [(''pkgA'', VDict [(''modelA'', VDict [(''timeout'', PyInt 5)])])],
         VDict [(''modelA'', VDict [(''timeout'', PyInt 5)])],
         VDict [(''timeout'', PyInt 5)]], None)
   \<and> fqn_search (VDict [(''pkgA'', VDict [(''modelA'', VDict [(''timeout'', PyInt 5)])])]) [''pkgB'']
     = ([VDict [(''pkgA'', VDict [(''modelA'', VDict [(''timeout'', PyInt 5)])])]], None)
   \<and> get_path (VDict [(''pkgA'', VDict [(''modelA'', VDict [(''timeout'', PyInt 5)])])]) [''pkgA'', ''modelA'']
     = Some (VDict [(''timeout'', PyInt 5)])"
proof -
  let ?m = "[(''timeout'', PyInt 5)]"
  let ?p = "[(''modelA'', VDict ?m)]"
  let ?r = "[(''pkgA'', VDict ?p)]"
  have e: "fqn_search (VDict ?m) [] = ([VDict ?m], None)"
    using fqn_search_descends[of "VDict ?m"] by blast
  have "map_of ?p ''modelA'' = Some (VDict ?m) \<and> VDict ?m \<noteq> PyNone" by simp
  then have m: "fqn_search (VDict ?p) [''modelA''] = ([VDict ?p, VDict ?m], None)"
    using fqn_search_descends[where d = "?p" and s = "''modelA''" and v = "VDict ?m" and rest = "[]"] e
    by simp
  have "map_of ?r ''pkgA'' = Some (VDict ?p) \<and> VDict ?p \<noteq> PyNone" by simp
  then have 1: "fqn_search (VDict ?r) [''pkgA'', ''modelA''] = ([VDict ?r, VDict ?p, VDict ?m], None)"
    using fqn_search_descends[where d = "?r" and s = "''pkgA''" and v = "VDict ?p"
        and rest = "[''modelA'']"] m by simp
  have "map_of ?r ''pkgB'' = None \<or> map_of ?r ''pkgB'' = Some PyNone" by simp
  then have 2: "fqn_search (VDict ?r) [''pkgB''] = ([VDict ?r], None)"
    using fqn_search_descends[where d = "?r" and s = "''pkgB''" and rest = "[]"] by blast
  have "\<forall>i < length [VDict ?r, VDict ?p, VDict ?m].
      get_path (VDict ?r) (take i [''pkgA'', ''modelA'']) = Some ([VDict ?r, VDict ?p, VDict ?m] ! i)"
    using fqn_search_descends[where root = "VDict ?r" and fqn = "[''pkgA'', ''modelA'']"
        and ys = "[VDict ?r, VDict ?p, VDict ?m]" and e = None] 1 by blast
  from this[THEN spec, of 2]
  have 3: "get_path (VDict ?r) [''pkgA'', ''modelA''] = Some (VDict ?m)" by simp
  from 1 2 3 show ?thesis by simp
qed

text \<open>
  C1 as stated fails: the key \<^verbatim>\<open>"a"\<close> is present in the root, and yet nothing is yielded
  for it, because the value stored at it is \<^verbatim>\<open>None\<close>.
\<close>

theorem fqn_search_present_None_counterexample:
  "dict_contains ''a'' [(''a'', PyNone)]
   \<and> fqn_search (VDict [(''a'', PyNone)]) [''a''] = ([VDict [(''a'', PyNone)]], None)"
  by (simp add: fqn_search_def dict_contains_def)

text \<open>
  C3, as the code has it. From a current level that is not a dict, a further segment
  makes the iteration raise \<^verbatim>\<open>AttributeError\<close> (the level has no \<^verbatim>\<open>get\<close>): a value that is
  neither a dict nor \<^verbatim>\<open>None\<close>, reached at the last segment, is yielded and the search ends
  normally, and reached before the last segment it is yielded and the next step raises.
  Only \<^verbatim>\<open>None\<close> stored at a segment stops the search without an error. The iteration
  raises nothing but \<^verbatim>\<open>AttributeError\<close>, and when it raises, segments remain and the last
  value yielded, the one found by following the segments used so far, is not a dict; a
  search that ends normally with segments remaining has a dict as its last value.
\<close>

theorem fqn_search_non_mapping:
  "(\<not> is_dict root \<longrightarrow> fqn_search root (s # rest) = ([root], Some AttributeError))
   \<and> (map_of d s = Some v \<and> \<not> is_dict v \<and> v \<noteq> PyNone \<longrightarrow>
        fqn_search (VDict d) [s] = ([VDict d, v], None)
        \<and> fqn_search (VDict d) (s # s' # rest) = ([VDict d, v], Some AttributeError))
   \<and> (map_of d s = Some PyNone \<longrightarrow> fqn_search (VDict d) (s # rest) = ([VDict d], None))
   \<and> (fqn_search root fqn = (ys, Some err) \<longrightarrow>
        err = AttributeError \<and> ys \<noteq> [] \<and> length ys \<le> length fqn
        \<and> get_path root (take (length ys - 1) fqn) = Some (last ys) \<and> \<not> is_dict (last ys))
   \<and> (fqn_search root fqn = (ys, None) \<and> length ys \<le> length fqn \<longrightarrow> is_dict (last ys))"
proof (intro conjI impI)
  assume "\<not> is_dict root"
  then show "fqn_search root (s # rest) = ([root], Some AttributeError)"
    by (cases root) (simp_all add: fqn_search_def)
next
  assume a: "map_of d s = Some v \<and> \<not> is_dict v \<and> v \<noteq> PyNone"
  then show "fqn_search (VDict d) [s] = ([VDict d, v], None)"
    by (simp add: fqn_search_def deepcopy_def)
  from a show "fqn_search (VDict d) (s # s' # rest) = ([VDict d, v], Some AttributeError)"
    by (cases v) (simp_all add: fqn_search_def deepcopy_def)
next
  assume "map_of d s = Some PyNone"
  then show "fqn_search (VDict d) (s # rest) = ([VDict d], None)"
    by (simp add: fqn_search_def)
next
  assume a: "fqn_search root fqn = (ys, Some err)"
  note sp = fqn_search_spec[OF a]
  from sp have ne: "ys \<noteq> []" and le: "length ys \<le> length fqn" by auto
  with sp obtain v where v: "get_path root (take (length ys - 1) fqn) = Some v"
    and c: "if is_dict v then Some err = None \<and> level_get v (fqn ! (length ys - 1)) = PyNone
              else Some err = Some AttributeError" by blast
  from ne sp have "get_path root (take (length ys - 1) fqn) = Some (ys ! (length ys - 1))" by simp
  with v ne have lv: "last ys = v" by (simp add: last_conv_nth)
  from c show "err = AttributeError" by (auto split: if_splits)
  show "ys \<noteq> []" by (rule ne)
  show "length ys \<le> length fqn" by (rule le)
  show "get_path root (take (length ys - 1) fqn) = Some (last ys)" using v lv by simp
  show "\<not> is_dict (last ys)" using c lv by (auto split: if_splits)
next
  assume a: "fqn_search root fqn = (ys, None) \<and> length ys \<le> length fqn"
  then have f: "fqn_search root fqn = (ys, None)" and le: "length ys \<le> length fqn" by simp_all
  note sp = fqn_search_spec[OF f]
  from sp le obtain v where v: "get_path root (take (length ys - 1) fqn) = Some v"
    and c: "if is_dict v then (None::error option) = None \<and> level_get v (fqn ! (length ys - 1)) = PyNone
              else None = Some AttributeError" by blast
  from sp have ne: "ys \<noteq> []" by blast
  with sp have "get_path root (take (length ys - 1) fqn) = Some (ys ! (length ys - 1))" by simp
  with v ne have "last ys = v" by (simp add: last_conv_nth)
  with c show "is_dict (last ys)" by (auto split: if_splits)
qed

theorem fqn_search_non_mapping_witness:
  "fqn_search (PyInt 5) [''b''] = ([PyInt 5], Some AttributeError)
   \<and> fqn_search (VDict [(''a'', PyInt 5)]) [''a''] = ([VDict [(''a'', PyInt 5)], PyInt 5], None)
   \<and> fqn_search (VDict [(''a'', PyInt 5)]) [''a'', ''b''] = ([VDict [(''a'', PyInt 5)], PyInt 5], Some AttributeError)
   \<and> fqn_search (VDict [(''a'', PyNone)]) [''a'', ''b''] = ([VDict [(''a'', PyNone)]], None)
   \<and> get_path (VDict [(''a'', PyInt 5)]) [''a''] = Some (PyInt 5)
   \<and> is_dict (last [VDict [(''a'', PyNone)]])"
proof -
  let ?d = "[(''a'', PyInt 5)]"
  let ?n = "[(''a'', PyNone)]"
  have 1: "fqn_search (PyInt 5) [''b''] = ([PyInt 5], Some AttributeError)"
    using fqn_search_non_mapping[where root = "PyInt 5" and s = "''b''" and rest = "[]"] by simp
  have "map_of ?d ''a'' = Some (PyInt 5) \<and> \<not> is_dict (PyInt 5) \<and> PyInt 5 \<noteq> PyNone"
    by simp
  then have 2: "fqn_search (VDict ?d) [''a''] = ([VDict ?d, PyInt 5], None)
      \<and> fqn_search (VDict ?d) [''a'', ''b''] = ([VDict ?d, PyInt 5], Some AttributeError)"
    using fqn_search_non_mapping[where d = "?d" and s = "''a''" and v = "PyInt 5"
        and s' = "''b''" and rest = "[]"] by blast
  have "map_of ?n ''a'' = Some PyNone" by simp
  then have 3: "fqn_search (VDict ?n) [''a'', ''b''] = ([VDict ?n], None)"
    using fqn_search_non_mapping[where d = "?n" and s = "''a''" and rest = "[''b'']"]
    by blast
  from 2 have "get_path (VDict ?d) (take (length [VDict ?d, PyInt 5] - 1) [''a'', ''b''])
      = Some (last [VDict ?d, PyInt 5])"
    using fqn_search_non_mapping[where root = "VDict ?d" and fqn = "[''a'', ''b'']"
        and ys = "[VDict ?d, PyInt 5]" and err = AttributeError] by blast
  then have 4: "get_path (VDict ?d) [''a''] = Some (PyInt 5)" by simp
  have "fqn_search (VDict ?n) [''a'', ''b''] = ([VDict ?n], None)
      \<and> length [VDict ?n] \<le> length [''a'', ''b'']" using 3 by simp
  then have 5: "is_dict (last [VDict ?n])"
    using fqn_search_non_mapping[where root = "VDict ?n" and fqn = "[''a'', ''b'']"
        and ys = "[VDict ?n]"] by blast
  from 1 2 3 4 5 show ?thesis by blast
qed

text \<open>
  C3 as stated fails: the scalar 5 is reached partway through the fqn, it is yielded, and
  the step for the next segment raises \<^verbatim>\<open>AttributeError\<close>.
\<close>

theorem fqn_search_scalar_counterexample:
  "fqn_search (VDict [(''a'', PyInt 5)]) [''a'', ''b'']
     = ([VDict [(''a'', PyInt 5)], PyInt 5], Some AttributeError)"
  by (simp add: fqn_search_def deepcopy_def)

section \<open>Structural merge\<close>

text \<open>
  C8. \<^verbatim>\<open>deep_merge(a, b, c)\<close> is \<^verbatim>\<open>deep_merge(deep_merge(a, b), c)\<close>, for all values: both
  raise the error of \<^verbatim>\<open>deep_merge(a, b)\<close> when that call raises, and otherwise both are the
  merge of \<open>c\<close> into its result.
\<close>

theorem deep_merge_fold:
  "deep_merge [a, b, c] =
     (case deep_merge [a, b] of Inl e \<Rightarrow> Inl e | Inr ab \<Rightarrow> deep_merge [ab, c])"
  by (simp add: deep_merge.simps[of "[a, b, c]"] deep_merge.simps[of "[_, c]"]
      deep_merge.simps[of "[_]"] deepcopy_def split: sum.splits)

text \<open>
  C10, as the code has it. With two or more arguments of which the last is not a dict,
  \<^verbatim>\<open>deep_merge\<close> first merges the arguments before the last: if that raises, the error
  propagates, and otherwise the result is \<^verbatim>\<open>None\<close>. With exactly two arguments it is
  always \<^verbatim>\<open>None\<close>.
\<close>

theorem deep_merge_last_not_dict:
  "(2 \<le> length args \<and> \<not> is_dict (last args) \<longrightarrow>
      deep_merge args = (case deep_merge (butlast args) of Inl e \<Rightarrow> Inl e | Inr d \<Rightarrow> Inr PyNone))
   \<and> (\<not> is_dict b \<longrightarrow> deep_merge [a, b] = Inr PyNone)"
proof (intro conjI impI)
  assume a: "2 \<le> length args \<and> \<not> is_dict (last args)"
  then have "u_deep_merge d (last args) = Inr PyNone" for d
    by (cases "last args") (simp_all add: u_deep_merge.simps)
  moreover from a have "length args \<noteq> 0" "length args \<noteq> 1" by auto
  ultimately show "deep_merge args = (case deep_merge (butlast args) of Inl e \<Rightarrow> Inl e | Inr d \<Rightarrow> Inr PyNone)"
    by (simp add: deep_merge.simps[of args] deepcopy_def split: sum.splits)
next
  assume "\<not> is_dict b"
  then have "u_deep_merge d b = Inr PyNone" for d
    by (cases b) (simp_all add: u_deep_merge.simps)
  then show "deep_merge [a, b] = Inr PyNone"
    by (simp add: deep_merge.simps[of "[a, b]"] deep_merge.simps[of "[a]"] deepcopy_def)
qed

theorem deep_merge_last_not_dict_witness:
  "deep_merge [VDict [(''a'', PyInt 1)], VDict [(''b'', PyInt 2)], PyInt 7] = Inr PyNone
   \<and> deep_merge [VDict [(''a'', PyInt 1)], VList [PyInt 1]] = Inr PyNone"
proof -
  let ?args = "[VDict [(''a'', PyInt 1)], VDict [(''b'', PyInt 2)], PyInt 7]"
  have p: "deep_merge (butlast ?args) = Inr (VDict [(''a'', PyInt 1), (''b'', PyInt 2)])"
    by (simp add: deep_merge.simps u_deep_merge.simps deep_merge_item.simps deepcopy_def)
  have "2 \<le> length ?args \<and> \<not> is_dict (last ?args)" by simp
  then have 1: "deep_merge ?args = Inr PyNone"
    using deep_merge_last_not_dict[of ?args] p by simp
  have "\<not> is_dict (VList [PyInt 1])" by simp
  then have 2: "deep_merge [VDict [(''a'', PyInt 1)], VList [PyInt 1]] = Inr PyNone"
    using deep_merge_last_not_dict[of _ "VList [PyInt 1]" "VDict [(''a'', PyInt 1)]"] by blast
  from 1 2 show ?thesis by simp
qed

text \<open>
  C10 as stated fails: three arguments, the last one \<^verbatim>\<open>None\<close>, and the call raises
  \<^verbatim>\<open>TypeError\<close>, because merging the first two does (the dict \<^verbatim>\<open>{"b": 2}\<close> is merged into
  the integer 1).
\<close>

theorem deep_merge_last_not_dict_counterexample:
  "2 \<le> length [VDict [(''a'', PyInt 1)], VDict [(''a'', VDict [(''b'', PyInt 2)])], PyNone]
   \<and> \<not> is_dict (last [VDict [(''a'', PyInt 1)], VDict [(''a'', VDict [(''b'', PyInt 2)])], PyNone])
   \<and> deep_merge [VDict [(''a'', PyInt 1)], VDict [(''a'', VDict [(''b'', PyInt 2)])], PyNone]
       = Inl TypeError"
  by (simp add: deep_merge.simps u_deep_merge.simps deep_merge_item.simps deepcopy_def setdefault_def)

lemma u_deep_merge_items_append:
  "u_deep_merge_items dest (xs @ ys) =
     (case u_deep_merge_items dest xs of Inl e \<Rightarrow> Inl e | Inr d \<Rightarrow> u_deep_merge_items d ys)"
  by (induction xs arbitrary: dest) (auto split: sum.splits)

lemma deep_merge_item_other_keys:
  assumes "deep_merge_item dest k v = Inr r"
  shows "\<exists>d d'. dest = VDict d \<and> r = VDict d' \<and> (\<forall>k'. k' \<noteq> k \<longrightarrow> map_of d' k' = map_of d k')"
  using assms
  by (cases dest)
     (auto simp: deep_merge_item.simps setdefault_def update_conv' split: if_splits sum.splits option.splits)

lemma u_deep_merge_items_other_keys:
  "u_deep_merge_items (VDict d) items = Inr r \<Longrightarrow>
   \<exists>d'. r = VDict d' \<and> (\<forall>k'. k' \<notin> fst ` set items \<longrightarrow> map_of d' k' = map_of d k')"
proof (induction items arbitrary: d)
  case Nil
  then show ?case by auto
next
  case (Cons kv items)
  obtain k v where kv: "kv = (k, v)" by (cases kv)
  from Cons.prems kv obtain r1 where r1: "deep_merge_item (VDict d) k v = Inr r1"
    and rest: "u_deep_merge_items r1 items = Inr r"
    by (auto split: sum.splits)
  from deep_merge_item_other_keys[OF r1] obtain d1 where d1: "r1 = VDict d1"
    and keep1: "\<forall>k'. k' \<noteq> k \<longrightarrow> map_of d1 k' = map_of d k'" by auto
  from Cons.IH[of d1] rest d1 obtain d' where "r = VDict d'"
    and "\<forall>k'. k' \<notin> fst ` set items \<longrightarrow> map_of d' k' = map_of d1 k'" by auto
  with keep1 kv show ?case by auto
qed

lemma deep_merge_two_plus:
  "args \<noteq> [] \<Longrightarrow> deep_merge (args @ [s]) =
     (case deep_merge args of Inl e \<Rightarrow> Inl e | Inr dest \<Rightarrow> u_deep_merge dest s)"
  by (simp add: deep_merge.simps[of "args @ [s]"] deepcopy_def)

lemma deep_merge_item_list:
  "map_of d k = Some (VList ys) \<Longrightarrow>
     deep_merge_item (VDict d) k (VList xs) = Inr (VDict (AList.update k (VList (xs @ ys)) d))"
  "map_of d k = None \<Longrightarrow>
     deep_merge_item (VDict d) k (VList xs) = Inr (VDict (AList.update k (VList xs) d))"
  by (simp_all add: deep_merge_item.simps dict_contains_def)

lemma u_deep_merge_items_at_key:
  assumes dist: "distinct (map fst s)" and sk: "map_of s k = Some v"
    and res: "u_deep_merge_items (VDict d) s = Inr r"
  shows "\<exists>d1 d2 d'. deep_merge_item (VDict d1) k v = Inr (VDict d2) \<and> map_of d1 k = map_of d k
     \<and> r = VDict d' \<and> map_of d' k = map_of d2 k"
proof -
  from sk have "(k, v) \<in> set s" by (rule map_of_SomeD)
  then obtain pre post where s: "s = pre @ (k, v) # post" by (auto dest: split_list)
  with dist have kpre: "k \<notin> fst ` set pre" and kpost: "k \<notin> fst ` set post" by auto
  from res s obtain r1 where r1: "u_deep_merge_items (VDict d) pre = Inr r1"
    and r2: "u_deep_merge_items r1 ((k, v) # post) = Inr r"
    by (auto simp: u_deep_merge_items_append split: sum.splits)
  from u_deep_merge_items_other_keys[OF r1] kpre obtain d1 where d1: "r1 = VDict d1"
    and m1: "map_of d1 k = map_of d k" by auto
  from r2 obtain r3 where r3: "deep_merge_item r1 k v = Inr r3"
    and r4: "u_deep_merge_items r3 post = Inr r" by (auto split: sum.splits)
  from deep_merge_item_other_keys[OF r3] obtain d2 where d2: "r3 = VDict d2" by auto
  from u_deep_merge_items_other_keys[of d2 post r] r4 d2 kpost obtain d' where
    "r = VDict d'" "map_of d' k = map_of d2 k" by auto
  with r3 d1 d2 m1 show ?thesis by blast
qed

text \<open>
  C4. Merging a source whose value at a key is a list \<open>xs\<close>: where the destination holds
  a list \<open>ys\<close> at that key, the key gets \<open>xs\<close> followed by \<open>ys\<close>; where the destination has
  no value at that key, it gets \<open>xs\<close> as it is. This holds for the single item
  (\<open>deep_merge_item\<close>, which then never fails), and for the whole call, where the
  destination is the merge of the earlier arguments: whenever the call returns a result,
  the result is a dict with that list at the key. The call of the example returns
  \<^verbatim>\<open>{"x": [3, 4, 1, 2]}\<close>.
\<close>

theorem deep_merge_prepends_sequences:
  "(map_of d k = Some (VList ys) \<longrightarrow>
      deep_merge_item (VDict d) k (VList xs) = Inr (VDict (AList.update k (VList (xs @ ys)) d)))
   \<and> (map_of d k = None \<longrightarrow>
      deep_merge_item (VDict d) k (VList xs) = Inr (VDict (AList.update k (VList xs) d)))
   \<and> (args \<noteq> [] \<and> deep_merge args = Inr (VDict d) \<and> distinct (map fst s)
        \<and> map_of s k = Some (VList xs) \<and> deep_merge (args @ [VDict s]) = Inr r \<longrightarrow>
      (\<exists>d'. r = VDict d' \<and>
         (map_of d k = None \<longrightarrow> map_of d' k = Some (VList xs)) \<and>
         (\<forall>ys. map_of d k = Some (VList ys) \<longrightarrow> map_of d' k = Some (VList (xs @ ys)))))
   \<and> deep_merge [VDict [(''x'', VList [PyInt 1, PyInt 2])], VDict [(''x'', VList [PyInt 3, PyInt 4])]]
        = Inr (VDict [(''x'', VList [PyInt 3, PyInt 4, PyInt 1, PyInt 2])])"
proof (intro conjI impI)
  assume "map_of d k = Some (VList ys)"
  then show "deep_merge_item (VDict d) k (VList xs) = Inr (VDict (AList.update k (VList (xs @ ys)) d))"
    by (rule deep_merge_item_list)
next
  assume "map_of d k = None"
  then show "deep_merge_item (VDict d) k (VList xs) = Inr (VDict (AList.update k (VList xs) d))"
    by (rule deep_merge_item_list)
next
  assume a: "args \<noteq> [] \<and> deep_merge args = Inr (VDict d) \<and> distinct (map fst s)
        \<and> map_of s k = Some (VList xs) \<and> deep_merge (args @ [VDict s]) = Inr r"
  then have "u_deep_merge_items (VDict d) s = Inr r"
    using deep_merge_two_plus[of args "VDict s"] by (simp add: u_deep_merge.simps)
  with a obtain d1 d2 d' where item: "deep_merge_item (VDict d1) k (VList xs) = Inr (VDict d2)"
    and d1: "map_of d1 k = map_of d k" and r: "r = VDict d'" and d': "map_of d' k = map_of d2 k"
    using u_deep_merge_items_at_key[of s k "VList xs" d r] by blast
  have h1: "map_of d k = None \<longrightarrow> map_of d' k = Some (VList xs)"
  proof
    assume "map_of d k = None"
    with d1 have "map_of d1 k = None" by simp
    from deep_merge_item_list(2)[OF this, of xs] item
    have "d2 = AList.update k (VList xs) d1" by simp
    with d' show "map_of d' k = Some (VList xs)" by (simp add: update_conv')
  qed
  have h2: "\<forall>ys. map_of d k = Some (VList ys) \<longrightarrow> map_of d' k = Some (VList (xs @ ys))"
  proof (intro allI impI)
    fix ys assume "map_of d k = Some (VList ys)"
    with d1 have "map_of d1 k = Some (VList ys)" by simp
    from deep_merge_item_list(1)[OF this, of xs] item
    have "d2 = AList.update k (VList (xs @ ys)) d1" by simp
    with d' show "map_of d' k = Some (VList (xs @ ys))" by (simp add: update_conv')
  qed
  show "\<exists>d'. r = VDict d' \<and>
         (map_of d k = None \<longrightarrow> map_of d' k = Some (VList xs)) \<and>
         (\<forall>ys. map_of d k = Some (VList ys) \<longrightarrow> map_of d' k = Some (VList (xs @ ys)))"
    by (rule exI[of _ d'], intro conjI) (rule r, rule h1, rule h2)
next
  show "deep_merge [VDict [(''x'', VList [PyInt 1, PyInt 2])], VDict [(''x'', VList [PyInt 3, PyInt 4])]]
        = Inr (VDict [(''x'', VList [PyInt 3, PyInt 4, PyInt 1, PyInt 2])])"
    by (simp add: deep_merge.simps u_deep_merge.simps deep_merge_item.simps deepcopy_def dict_contains_def)
qed

theorem deep_merge_prepends_sequences_witness:
  "deep_merge_item (VDict [(''x'', VList [PyInt 1, PyInt 2])]) ''x'' (VList [PyInt 3, PyInt 4])
     = Inr (VDict [(''x'', VList [PyInt 3, PyInt 4, PyInt 1, PyInt 2])])
   \<and> deep_merge_item (VDict [(''y'', PyInt 0)]) ''x'' (VList [PyInt 3, PyInt 4])
     = Inr (VDict [(''y'', PyInt 0), (''x'', VList [PyInt 3, PyInt 4])])
   \<and> (\<exists>d'. deep_merge [VDict [(''x'', VList [PyInt 1, PyInt 2])], VDict [(''x'', VList [PyInt 3, PyInt 4])]]
            = Inr (VDict d')
          \<and> map_of d' ''x'' = Some (VList [PyInt 3, PyInt 4, PyInt 1, PyInt 2]))"
proof -
  let ?d = "[(''x'', VList [PyInt 1, PyInt 2])]"
  let ?e = "[(''y'', PyInt 0)]"
  let ?s = "[(''x'', VList [PyInt 3, PyInt 4])]"
  let ?xs = "[PyInt 3, PyInt 4]"
  let ?r = "VDict [(''x'', VList [PyInt 3, PyInt 4, PyInt 1, PyInt 2])]"
  note inst = deep_merge_prepends_sequences[where d = "?d" and k = "''x''" and xs = "?xs"
      and ys = "[PyInt 1, PyInt 2]" and args = "[VDict ?d]" and s = "?s" and r = "?r"]
  have 1: "deep_merge_item (VDict ?d) ''x'' (VList ?xs) = Inr ?r"
    using inst by simp
  have 2: "deep_merge_item (VDict ?e) ''x'' (VList ?xs)
      = Inr (VDict [(''y'', PyInt 0), (''x'', VList ?xs)])"
    using deep_merge_prepends_sequences[where d = "?e" and k = "''x''" and xs = "?xs"] by simp
  have res: "deep_merge ([VDict ?d] @ [VDict ?s]) = Inr ?r"
    using inst by simp
  have "[VDict ?d] \<noteq> [] \<and> deep_merge [VDict ?d] = Inr (VDict ?d) \<and> distinct (map fst ?s)
        \<and> map_of ?s ''x'' = Some (VList ?xs) \<and> deep_merge ([VDict ?d] @ [VDict ?s]) = Inr ?r"
    using res by (simp add: deep_merge.simps[of "[VDict ?d]"] deepcopy_def)
  with inst have "\<exists>d'. ?r = VDict d' \<and>
         (map_of ?d ''x'' = None \<longrightarrow> map_of d' ''x'' = Some (VList ?xs)) \<and>
         (\<forall>ys. map_of ?d ''x'' = Some (VList ys) \<longrightarrow> map_of d' ''x'' = Some (VList (?xs @ ys)))"
    by blast
  then have 3: "\<exists>d'. deep_merge [VDict ?d, VDict ?s] = Inr (VDict d')
          \<and> map_of d' ''x'' = Some (VList [PyInt 3, PyInt 4, PyInt 1, PyInt 2])"
    using res by simp
  from 1 2 3 show ?thesis by blast
qed

lemma py_list_error: "py_list v = Inl e \<Longrightarrow> e = TypeError"
  by (cases v rule: py_list.cases) simp_all

lemma merge_errors:
  "deep_merge args = Inl e \<longrightarrow> e = AttributeError \<or> e = TypeError"
  "u_deep_merge dest src = Inl e \<longrightarrow> e = AttributeError \<or> e = TypeError"
  "u_deep_merge_items dest items = Inl e \<longrightarrow> e = AttributeError \<or> e = TypeError"
  "deep_merge_item dest k v = Inl e \<longrightarrow> e = AttributeError \<or> e = TypeError"
proof (induction args and dest src and dest items and dest k v
    rule: deep_merge_u_deep_merge_u_deep_merge_items_deep_merge_item.induct)
  case (1 args)
  then show ?case
    by (subst deep_merge.simps) (auto simp: Let_def deepcopy_def split: sum.splits)
next
  case (2 destination source)
  then show ?case
    by (subst u_deep_merge.simps) (cases source; auto)
next
  case (3 destination)
  then show ?case by simp
next
  case (4 destination key v items)
  then show ?case by (auto split: sum.splits)
next
  case (5 destination key v)
  then show ?case
    by (subst deep_merge_item.simps)
       (cases destination; auto split: sum.splits prod.splits if_splits dest: py_list_error)
qed


lemma map_of_first_occurrence:
  "map_of s k = Some v \<Longrightarrow> \<exists>pre post. s = pre @ (k, v) # post \<and> k \<notin> fst ` set pre"
proof (induction s)
  case Nil
  then show ?case by simp
next
  case (Cons p s)
  show ?case
  proof (cases "fst p = k")
    case True
    with Cons.prems have "p = (k, v)" by (cases p) simp
    then have "p # s = [] @ (k, v) # s \<and> k \<notin> fst ` set []" by simp
    then show ?thesis by blast
  next
    case False
    with Cons.prems have "map_of s k = Some v" by (cases p) (simp split: if_splits)
    with Cons.IH obtain pre post where "s = pre @ (k, v) # post" "k \<notin> fst ` set pre" by blast
    with False have "p # s = (p # pre) @ (k, v) # post \<and> k \<notin> fst ` set (p # pre)" by auto
    then show ?thesis by blast
  qed
qed

lemma deep_merge_item_not_dict:
  "\<not> is_dict dest \<Longrightarrow> \<exists>e. deep_merge_item dest k v = Inl e"
  by (cases dest) (simp_all add: deep_merge_item.simps)

lemma deep_merge_nonempty_into_non_dict:
  assumes "\<not> is_dict n"
  shows "\<exists>e. deep_merge [n, VDict (kv # kvs)] = Inl e"
proof -
  obtain k' v' where kv: "kv = (k', v')" by (cases kv)
  from deep_merge_item_not_dict[OF assms, of k' v'] obtain e where "deep_merge_item n k' v' = Inl e" ..
  then have "u_deep_merge_items n (kv # kvs) = Inl e" using kv by simp
  then show ?thesis
    by (simp add: deep_merge.simps[of "[n, _]"] deep_merge.simps[of "[n]"] deepcopy_def
        u_deep_merge.simps)
qed

lemma deep_merge_item_dict_into_non_dict:
  assumes "map_of d k = Some n" "\<not> is_dict n"
  shows "\<exists>e. deep_merge_item (VDict d) k (VDict (kv # kvs)) = Inl e"
proof -
  from deep_merge_nonempty_into_non_dict[OF assms(2), of kv kvs]
  obtain e where "deep_merge [n, VDict (kv # kvs)] = Inl e" ..
  with assms(1) show ?thesis
    by (simp add: deep_merge_item.simps setdefault_def)
qed

text \<open>
  C2, as the code has it. The code has no error of its own for a Mapping meeting a
  non-Mapping at one key; what happens is what the dict operations do. Where the
  destination (the merge of the earlier arguments) holds a value that is not a dict at a
  key and the source holds a non-empty dict there, the call fails, with \<^verbatim>\<open>AttributeError\<close>
  or \<^verbatim>\<open>TypeError\<close>. The other mismatches are resolved without an error: an empty source
  dict leaves the destination's value in place, an atomic source value replaces the
  destination's dict, and a source list is put in front of the list of the keys of the
  destination's dict.
\<close>

theorem deep_merge_mapping_mismatch:
  "(args \<noteq> [] \<and> deep_merge args = Inr (VDict d) \<and> map_of d k = Some n \<and> \<not> is_dict n
      \<and> map_of s k = Some (VDict (kv # kvs)) \<longrightarrow>
        deep_merge (args @ [VDict s]) = Inl AttributeError
        \<or> deep_merge (args @ [VDict s]) = Inl TypeError)
   \<and> (map_of d k = Some n \<and> \<not> is_dict n \<longrightarrow>
        deep_merge_item (VDict d) k (VDict []) = Inr (VDict d))
   \<and> (map_of d k = Some (VDict m) \<longrightarrow>
        deep_merge_item (VDict d) k (Atom a) = Inr (VDict (AList.update k (Atom a) d)))
   \<and> (map_of d k = Some (VDict m) \<longrightarrow>
        deep_merge_item (VDict d) k (VList xs)
          = Inr (VDict (AList.update k (VList (xs @ map (\<lambda>kv. PyStr (fst kv)) m)) d)))"
proof (intro conjI impI)
  assume a: "args \<noteq> [] \<and> deep_merge args = Inr (VDict d) \<and> map_of d k = Some n \<and> \<not> is_dict n
      \<and> map_of s k = Some (VDict (kv # kvs))"
  let ?v = "VDict (kv # kvs)"
  from a obtain pre post where s: "s = pre @ (k, ?v) # post" and kpre: "k \<notin> fst ` set pre"
    using map_of_first_occurrence[of s k ?v] by blast
  have "\<exists>e. u_deep_merge_items (VDict d) s = Inl e"
  proof (cases "u_deep_merge_items (VDict d) pre")
    case (Inl e)
    then show ?thesis by (simp add: s u_deep_merge_items_append)
  next
    case (Inr r1)
    from u_deep_merge_items_other_keys[OF Inr] kpre obtain d1 where d1: "r1 = VDict d1"
      and "map_of d1 k = map_of d k" by auto
    with a have "map_of d1 k = Some n" by simp
    from deep_merge_item_dict_into_non_dict[OF this, of kv kvs] a
    obtain e where "deep_merge_item (VDict d1) k ?v = Inl e" by blast
    with Inr d1 show ?thesis by (simp add: s u_deep_merge_items_append)
  qed
  then obtain e where "u_deep_merge_items (VDict d) s = Inl e" ..
  with a have e: "deep_merge (args @ [VDict s]) = Inl e"
    using deep_merge_two_plus[of args "VDict s"] by (simp add: u_deep_merge.simps)
  with merge_errors(1)[of "args @ [VDict s]" e] have "e = AttributeError \<or> e = TypeError" by simp
  with e show "deep_merge (args @ [VDict s]) = Inl AttributeError
        \<or> deep_merge (args @ [VDict s]) = Inl TypeError" by auto
next
  assume a: "map_of d k = Some n \<and> \<not> is_dict n"
  then have "deep_merge [n, VDict []] = Inr n"
    by (simp add: deep_merge.simps[of "[n, _]"] deep_merge.simps[of "[n]"] deepcopy_def
        u_deep_merge.simps)
  with a show "deep_merge_item (VDict d) k (VDict []) = Inr (VDict d)"
    by (simp add: deep_merge_item.simps setdefault_def update_triv)
next
  assume "map_of d k = Some (VDict m)"
  then show "deep_merge_item (VDict d) k (Atom a) = Inr (VDict (AList.update k (Atom a) d))"
    by (simp add: deep_merge_item.simps)
next
  assume "map_of d k = Some (VDict m)"
  then show "deep_merge_item (VDict d) k (VList xs)
          = Inr (VDict (AList.update k (VList (xs @ map (\<lambda>kv. PyStr (fst kv)) m)) d))"
    by (simp add: deep_merge_item.simps dict_contains_def)
qed

theorem deep_merge_mapping_mismatch_witness:
  "deep_merge ([VDict [(''a'', PyInt 5)]] @ [VDict [(''a'', VDict [(''b'', PyInt 1)])]]) = Inl TypeError
   \<and> deep_merge_item (VDict [(''a'', PyInt 5)]) ''a'' (VDict []) = Inr (VDict [(''a'', PyInt 5)])
   \<and> deep_merge_item (VDict [(''a'', VDict [(''x'', PyInt 1)])]) ''a'' (PyInt 5)
        = Inr (VDict [(''a'', PyInt 5)])
   \<and> deep_merge_item (VDict [(''a'', VDict [(''x'', PyInt 1)])]) ''a'' (VList [PyInt 3])
        = Inr (VDict [(''a'', VList [PyInt 3, PyStr ''x''])])"
proof -
  let ?d = "[(''a'', PyInt 5)]"
  let ?s = "[(''a'', VDict [(''b'', PyInt 1)])]"
  let ?m = "[(''a'', VDict [(''x'', PyInt 1)])]"
  have "[VDict ?d] \<noteq> [] \<and> deep_merge [VDict ?d] = Inr (VDict ?d) \<and> map_of ?d ''a'' = Some (PyInt 5)
      \<and> \<not> is_dict (PyInt 5) \<and> map_of ?s ''a'' = Some (VDict ((''b'', PyInt 1) # []))"
    by (simp add: deep_merge.simps[of "[VDict ?d]"] deepcopy_def)
  then have "deep_merge ([VDict ?d] @ [VDict ?s]) = Inl AttributeError
        \<or> deep_merge ([VDict ?d] @ [VDict ?s]) = Inl TypeError"
    using deep_merge_mapping_mismatch[where args = "[VDict ?d]" and d = "?d" and k = "''a''"
        and n = "PyInt 5" and s = "?s" and kv = "(''b'', PyInt 1)" and kvs = "[]"] by blast
  moreover have "deep_merge ([VDict ?d] @ [VDict ?s]) \<noteq> Inl AttributeError"
    by (simp add: deep_merge.simps u_deep_merge.simps deep_merge_item.simps deepcopy_def setdefault_def)
  ultimately have 1: "deep_merge ([VDict ?d] @ [VDict ?s]) = Inl TypeError" by blast
  have "map_of ?d ''a'' = Some (PyInt 5) \<and> \<not> is_dict (PyInt 5)" by simp
  then have 2: "deep_merge_item (VDict ?d) ''a'' (VDict []) = Inr (VDict ?d)"
    using deep_merge_mapping_mismatch[where d = "?d" and k = "''a''" and n = "PyInt 5"] by blast
  have m: "map_of ?m ''a'' = Some (VDict [(''x'', PyInt 1)])" by simp
  have 3: "deep_merge_item (VDict ?m) ''a'' (PyInt 5) = Inr (VDict [(''a'', PyInt 5)])"
    using deep_merge_mapping_mismatch[where d = "?m" and k = "''a''" and m = "[(''x'', PyInt 1)]"
        and a = "AInt 5"] m by simp
  have 4: "deep_merge_item (VDict ?m) ''a'' (VList [PyInt 3]) = Inr (VDict [(''a'', VList [PyInt 3, PyStr ''x''])])"
    using deep_merge_mapping_mismatch[where d = "?m" and k = "''a''" and m = "[(''x'', PyInt 1)]"
        and xs = "[PyInt 3]"] m by simp
  from 1 2 3 4 show ?thesis by blast
qed

text \<open>
  C2 as stated fails in both directions: \<^verbatim>\<open>deep_merge({"a": 5}, {"a": {}})\<close> returns
  \<^verbatim>\<open>{"a": 5}\<close> and \<^verbatim>\<open>deep_merge({"a": {"x": 1}}, {"a": 5})\<close> returns \<^verbatim>\<open>{"a": 5}\<close>, neither with an
  error.
\<close>

theorem deep_merge_mapping_mismatch_counterexample:
  "deep_merge [VDict [(''a'', PyInt 5)], VDict [(''a'', VDict [])]] = Inr (VDict [(''a'', PyInt 5)])
   \<and> deep_merge [VDict [(''a'', VDict [(''x'', PyInt 1)])], VDict [(''a'', PyInt 5)]]
        = Inr (VDict [(''a'', PyInt 5)])"
  by (simp add: deep_merge.simps u_deep_merge.simps deep_merge_item.simps deepcopy_def setdefault_def)

section \<open>Keypath transform\<close>

lemma fold_max_ge_init: "(a::nat) \<le> fold max xs a"
  by (induction xs arbitrary: a) (auto intro: order_trans[OF max.cobounded2])

lemma fold_max_ge_member: "x \<in> set xs \<Longrightarrow> (x::nat) \<le> fold max xs a"
proof (induction xs arbitrary: a)
  case Nil
  then show ?case by simp
next
  case (Cons y ys)
  show ?case
  proof (cases "x = y")
    case True
    have "x \<le> max y a" using True by simp
    also have "\<dots> \<le> fold max ys (max y a)" by (rule fold_max_ge_init)
    finally show ?thesis by simp
  next
    case False
    with Cons.prems have "x \<in> set ys" by simp
    from Cons.IH[OF this] show ?thesis by simp
  qed
qed

lemma sequence_enumerate:
  "list_all2 (\<lambda>x t. \<forall>i. f i x = Inr (g i t)) xs ts \<Longrightarrow>
   sequence (map (\<lambda>(i, x). f i x) (enumerate n xs)) = Inr (map (\<lambda>(i, t). g i t) (enumerate n ts))"
  by (induction xs ts arbitrary: n rule: list_all2_induct) simp_all

lemma sequence_items:
  "list_all2 (\<lambda>kx kt. fst kx = fst kt \<and> f (fst kx) (snd kx) = Inr (g (fst kt) (snd kt))) kvs kts \<Longrightarrow>
   sequence (map (\<lambda>(k, x). case f k x of Inl e \<Rightarrow> Inl e | Inr y \<Rightarrow> Inr (k, y)) kvs)
     = Inr (map (\<lambda>(k, t). (k, g k t)) kts)"
  by (induction kvs kts rule: list_all2_induct) (auto split: prod.splits)

lemma list_all2_items:
  "map fst kvs = map fst kts \<Longrightarrow> list_all2 P (map snd kvs) (map snd kts) \<Longrightarrow>
   list_all2 (\<lambda>kx kt. fst kx = fst kt \<and> P (snd kx) (snd kt)) kvs kts"
proof (induction kvs arbitrary: kts)
  case Nil
  then show ?case by simp
next
  case (Cons kv kvs)
  then obtain kt kts' where "kts = kt # kts'" by (cases kts) auto
  with Cons show ?case by auto
qed

lemma u_deep_map_tree:
  "repr h v t \<Longrightarrow> is_tree t \<Longrightarrow> frames t \<le> limit \<Longrightarrow>
   u_deep_map limit h (\<lambda>a p. Inr (fn a p)) v kp = Inr (tree_map fn t kp)"
proof (induction arbitrary: limit kp rule: repr.induct)
  case (repr_atom a)
  then obtain d where "limit = Suc d" by (cases limit) auto
  then show ?case by simp
next
  case (repr_list r vs ts)
  let ?F = "\<lambda>a p. Inr (fn a p)"
  from repr_list.prems obtain d where limit: "limit = Suc d" by (cases limit) auto
  have len: "length vs = length ts" using repr_list.IH by (rule list_all2_lengthD)
  have elem: "u_deep_map d h ?F (vs ! j) (kp @ [Idx i]) = Inr (tree_map fn (ts ! j) (kp @ [Idx i]))"
    if j: "j < length ts" for j i
  proof -
    have mem: "ts ! j \<in> set ts" using j by simp
    then have "is_tree (ts ! j)" using repr_list.prems(1) by (simp add: list_all_iff)
    moreover have "frames (ts ! j) \<le> d"
      using repr_list.prems(2) limit fold_max_ge_member[of "frames (ts ! j)" "map frames ts" 0] mem
      by auto
    ultimately show ?thesis
      using list_all2_nthD2[OF repr_list.IH j] by blast
  qed
  have "list_all2 (\<lambda>x t. \<forall>i. u_deep_map d h ?F x (kp @ [Idx i])
          = Inr (tree_map fn t (kp @ [Idx i]))) vs ts"
    by (simp add: list_all2_conv_all_nth len elem)
  from sequence_enumerate[where f = "\<lambda>i x. u_deep_map d h ?F x (kp @ [Idx i])"
      and g = "\<lambda>i t. tree_map fn t (kp @ [Idx i])", OF this, of 0]
  show ?case using limit repr_list.hyps by simp
next
  case (repr_tuple r vs ts)
  then show ?case by simp
next
  case (repr_dict r kvs kts)
  let ?F = "\<lambda>a p. Inr (fn a p)"
  from repr_dict.prems obtain d where limit: "limit = Suc d" by (cases limit) auto
  let ?P = "\<lambda>x t. repr h x t \<and> (\<forall>limit kp. is_tree t \<longrightarrow> frames t \<le> limit \<longrightarrow>
        u_deep_map limit h ?F x kp = Inr (tree_map fn t kp))"
  have all: "list_all2 (\<lambda>kx kt. fst kx = fst kt \<and> ?P (snd kx) (snd kt)) kvs kts"
    using list_all2_items[OF repr_dict.hyps(2), of ?P] repr_dict.IH by simp
  have len: "length kvs = length kts" using all by (rule list_all2_lengthD)
  have elem: "fst (kvs ! j) = fst (kts ! j) \<and>
      u_deep_map d h ?F (snd (kvs ! j)) (kp @ [Key (fst (kvs ! j))])
        = Inr (tree_map fn (snd (kts ! j)) (kp @ [Key (fst (kts ! j))]))"
    if j: "j < length kts" for j
  proof -
    have mem: "kts ! j \<in> set kts" using j by simp
    then have "is_tree (snd (kts ! j))" using repr_dict.prems(1) by (simp add: list_all_iff)
    moreover have "frames (snd (kts ! j)) \<le> d"
      using repr_dict.prems(2) limit
        fold_max_ge_member[of "frames (snd (kts ! j))" "map (\<lambda>kt. frames (snd kt)) kts" 0] mem
      by auto
    ultimately show ?thesis
      using list_all2_nthD2[OF all j] by auto
  qed
  have "list_all2 (\<lambda>kx kt. fst kx = fst kt \<and>
          u_deep_map d h ?F (snd kx) (kp @ [Key (fst kx)])
            = Inr (tree_map fn (snd kt) (kp @ [Key (fst kt)]))) kvs kts"
    unfolding list_all2_conv_all_nth
  proof (intro conjI allI impI)
    show "length kvs = length kts" by (rule len)
  next
    fix i assume "i < length kvs"
    then have "i < length kts" using len by simp
    from elem[OF this] show "fst (kvs ! i) = fst (kts ! i)" ..
    from elem[OF \<open>i < length kts\<close>]
    show "u_deep_map d h ?F (snd (kvs ! i)) (kp @ [Key (fst (kvs ! i))])
        = Inr (tree_map fn (snd (kts ! i)) (kp @ [Key (fst (kts ! i))]))" ..
  qed
  from sequence_items[where f = "\<lambda>k x. u_deep_map d h ?F x (kp @ [Key k])"
      and g = "\<lambda>k t. tree_map fn t (kp @ [Key k])", OF this]
  show ?case using limit repr_dict.hyps by simp
qed


lemma list_all2_enumerate_map:
  "(\<And>i t. (i, t) \<in> set (enumerate n ts) \<Longrightarrow> P t (g i t)) \<Longrightarrow>
   list_all2 P ts (map (\<lambda>(i, t). g i t) (enumerate n ts))"
  by (induction ts arbitrary: n) auto

lemma list_all2_items_map:
  "(\<And>k t. (k, t) \<in> set kts \<Longrightarrow> P t (g k t)) \<Longrightarrow>
   list_all2 P (map snd kts) (map snd (map (\<lambda>(k, t). (k, g k t)) kts))"
  by (induction kts) auto

lemma map_fst_items_map: "map fst (map (\<lambda>(k, t). (k, g k t)) kts) = map fst kts"
  by (induction kts) auto

lemma map_of_items_map:
  "map_of (map (\<lambda>(k, t). (k, g k t)) kts) k = map_option (g k) (map_of kts k)"
  by (induction kts) auto

lemma tree_map_same_shape: "is_tree t \<Longrightarrow> same_shape t (tree_map fn t p)"
proof (induction fn t p rule: tree_map.induct)
  case (1 fn a p)
  show ?case by simp
next
  case (2 fn ts p)
  have "list_all2 same_shape ts (map (\<lambda>(i, t). tree_map fn t (p @ [Idx i])) (enumerate 0 ts))"
  proof (rule list_all2_enumerate_map)
    fix i t assume it: "(i, t) \<in> set (enumerate 0 ts)"
    then have "t \<in> set ts" by (auto simp: in_set_enumerate_eq)
    with "2.prems" have "is_tree t" by (simp add: list_all_iff)
    with "2.IH"[OF it refl] show "same_shape t (tree_map fn t (p @ [Idx i]))" by simp
  qed
  then show ?case by simp
next
  case (3 fn kts p)
  have "list_all2 same_shape (map snd kts)
          (map snd (map (\<lambda>(k, t). (k, tree_map fn t (p @ [Key k]))) kts))"
  proof (rule list_all2_items_map)
    fix k t assume kt: "(k, t) \<in> set kts"
    with "3.prems" have "is_tree t" by (auto simp: list_all_iff)
    with "3.IH"[OF kt refl] show "same_shape t (tree_map fn t (p @ [Key k]))" by simp
  qed
  then show ?case by auto
next
  case (4 fn ts p)
  then show ?case by simp
qed

lemma tree_map_subtree:
  "subtree t p = Some (Atom a) \<Longrightarrow> subtree (tree_map fn t q) p = Some (fn a (q @ p))"
proof (induction fn t q arbitrary: p rule: tree_map.induct)
  case (1 fn a' q)
  then show ?case by (cases p) auto
next
  case (2 fn ts q)
  from "2.prems" obtain i p' where p: "p = Idx i # p'" and i: "i < length ts"
    and sub: "subtree (ts ! i) p' = Some (Atom a)"
  proof (cases p)
    case Nil
    with "2.prems" show ?thesis by simp
  next
    case (Cons sg p')
    with "2.prems" show ?thesis by (cases sg) (auto split: if_splits intro: that)
  qed
  have mem: "(i, ts ! i) \<in> set (enumerate 0 ts)" using i by (simp add: in_set_enumerate_eq)
  from "2.IH"[OF mem refl sub]
  have "subtree (tree_map fn (ts ! i) (q @ [Idx i])) p' = Some (fn a (q @ p))" using p by simp
  then show ?case using p i by (simp add: nth_enumerate_eq)
next
  case (3 fn kts q)
  from "3.prems" obtain k p' t where p: "p = Key k # p'" and k: "map_of kts k = Some t"
    and sub: "subtree t p' = Some (Atom a)"
  proof (cases p)
    case Nil
    with "3.prems" show ?thesis by simp
  next
    case (Cons sg p')
    with "3.prems" show ?thesis by (cases sg) (auto split: option.splits intro: that)
  qed
  from k have mem: "(k, t) \<in> set kts" by (rule map_of_SomeD)
  from "3.IH"[OF mem refl sub]
  have "subtree (tree_map fn t (q @ [Key k])) p' = Some (fn a (q @ p))" using p by simp
  then show ?case using p k by (simp add: map_of_items_map)
next
  case (4 fn ts q)
  then show ?case by (cases p) auto
qed


text \<open>
  C5, as the code has it. Let the value \<open>v\<close> be a well-formed Tree \<open>t\<close> in the store, and
  let the recursion limit allow the nesting of \<open>t\<close>. For every function \<open>fn\<close>, \<^verbatim>\<open>deep_map\<close> returns
  \<open>tree_map fn t []\<close>: a tree of the shape of \<open>t\<close>, with the same keys in the same order and
  lists of the same lengths, in which the leaf \<open>a\<close> at the keypath \<open>p\<close>, the keys and indices
  from the root to it, is replaced by \<open>fn a p\<close>. On \<^verbatim>\<open>{"a": [10, 20]}\<close>, the function that
  returns its keypath gives \<^verbatim>\<open>{"a": [("a", 0), ("a", 1)]}\<close>.
\<close>

theorem deep_map_maps_leaves:
  "(repr h v t \<and> is_tree t \<and> frames t \<le> limit \<longrightarrow>
      deep_map limit h (\<lambda>a p. Inr (fn a p)) v = Inr (tree_map fn t [])
      \<and> same_shape t (tree_map fn t [])
      \<and> (\<forall>p a. subtree t p = Some (Atom a) \<longrightarrow> subtree (tree_map fn t []) p = Some (fn a p)))
   \<and> deep_map 3 (\<lambda>r. if r = 0 then ODict [(''a'', HRef 1)] else OList [HAtom (AInt 10), HAtom (AInt 20)])
        (\<lambda>a p. Inr (VTuple (map seg_value p))) (HRef 0)
      = Inr (VDict [(''a'', VList [VTuple [PyStr ''a'', PyInt 0], VTuple [PyStr ''a'', PyInt 1]])])"
proof (intro conjI impI allI)
  assume a: "repr h v t \<and> is_tree t \<and> frames t \<le> limit"
  then have "u_deep_map limit h (\<lambda>a p. Inr (fn a p)) v [] = Inr (tree_map fn t [])"
    by (simp add: u_deep_map_tree)
  then show "deep_map limit h (\<lambda>a p. Inr (fn a p)) v = Inr (tree_map fn t [])"
    by (simp add: deep_map_def)
  from a show "same_shape t (tree_map fn t [])" by (simp add: tree_map_same_shape)
next
  fix p a
  assume "subtree t p = Some (Atom a)"
  from tree_map_subtree[OF this, of fn "[]"]
  show "subtree (tree_map fn t []) p = Some (fn a p)" by simp
next
  show "deep_map 3 (\<lambda>r. if r = 0 then ODict [(''a'', HRef 1)] else OList [HAtom (AInt 10), HAtom (AInt 20)])
        (\<lambda>a p. Inr (VTuple (map seg_value p))) (HRef 0)
      = Inr (VDict [(''a'', VList [VTuple [PyStr ''a'', PyInt 0], VTuple [PyStr ''a'', PyInt 1]])])"
    by (simp add: deep_map_def numeral_3_eq_3 enumerate_eq_zip)
qed

theorem deep_map_maps_leaves_witness:
  "deep_map 5 (\<lambda>r. if r = 0 then ODict [(''a'', HRef 1)] else OList [HAtom (AInt 10), HAtom (AInt 20)])
        (\<lambda>a p. Inr (VTuple (Atom a # map seg_value p))) (HRef 0)
      = Inr (VDict [(''a'', VList [VTuple [PyInt 10, PyStr ''a'', PyInt 0],
                                   VTuple [PyInt 20, PyStr ''a'', PyInt 1]])])
   \<and> same_shape (VDict [(''a'', VList [PyInt 10, PyInt 20])])
        (VDict [(''a'', VList [VTuple [PyInt 10, PyStr ''a'', PyInt 0],
                               VTuple [PyInt 20, PyStr ''a'', PyInt 1]])])
   \<and> subtree (VDict [(''a'', VList [VTuple [PyInt 10, PyStr ''a'', PyInt 0],
                                    VTuple [PyInt 20, PyStr ''a'', PyInt 1]])]) [Key ''a'', Idx 1]
      = Some (VTuple [PyInt 20, PyStr ''a'', PyInt 1])"
proof -
  let ?h = "\<lambda>r::nat. if r = 0 then ODict [(''a'', HRef 1)] else OList [HAtom (AInt 10), HAtom (AInt 20)]"
  let ?t = "VDict [(''a'', VList [PyInt 10, PyInt 20])]"
  let ?fn = "\<lambda>a p. VTuple (Atom a # map seg_value p)"
  let ?u = "VDict [(''a'', VList [VTuple [PyInt 10, PyStr ''a'', PyInt 0],
                                  VTuple [PyInt 20, PyStr ''a'', PyInt 1]])]"
  have l: "repr ?h (HRef 1) (VList [PyInt 10, PyInt 20])"
    by (rule repr_list[where vs = "[HAtom (AInt 10), HAtom (AInt 20)]"]) (simp_all add: repr_atom)
  have "repr ?h (HRef 0) ?t"
    by (rule repr_dict[where kvs = "[(''a'', HRef 1)]"]) (insert l, simp_all)
  moreover have "is_tree ?t" by simp
  moreover have "frames ?t \<le> 5" by simp
  ultimately have all: "deep_map 5 ?h (\<lambda>a p. Inr (?fn a p)) (HRef 0) = Inr (tree_map ?fn ?t [])
      \<and> same_shape ?t (tree_map ?fn ?t [])
      \<and> (\<forall>p a. subtree ?t p = Some (Atom a) \<longrightarrow> subtree (tree_map ?fn ?t []) p = Some (?fn a p))"
    using deep_map_maps_leaves[where h = "?h" and v = "HRef 0" and t = "?t" and limit = 5 and fn = "?fn"]
    by blast
  have u: "tree_map ?fn ?t [] = ?u" by (simp add: enumerate_eq_zip)
  have "subtree ?t [Key ''a'', Idx 1] = Some (Atom (AInt 20))" by simp
  with all have "subtree (tree_map ?fn ?t []) [Key ''a'', Idx 1] = Some (?fn (AInt 20) [Key ''a'', Idx 1])"
    by blast
  with all u show ?thesis by simp
qed

text \<open>
  C5 as stated fails: \<^verbatim>\<open>{"a": [10, 20]}\<close> is a well-formed Tree, and with a recursion limit
  that allows two nested activations of \<^verbatim>\<open>_deep_map\<close> where the tree needs three,
  \<^verbatim>\<open>deep_map\<close> returns no tree: the exhausted recursion is turned into
  \<^verbatim>\<open>RecursionException\<close>, as it is for every tree nested deeper than the limit in force.
\<close>

theorem deep_map_depth_counterexample:
  "repr (\<lambda>r. if r = 0 then ODict [(''a'', HRef 1)] else OList [HAtom (AInt 10), HAtom (AInt 20)])
      (HRef 0) (VDict [(''a'', VList [PyInt 10, PyInt 20])])
   \<and> is_tree (VDict [(''a'', VList [PyInt 10, PyInt 20])])
   \<and> deep_map 2 (\<lambda>r. if r = 0 then ODict [(''a'', HRef 1)] else OList [HAtom (AInt 10), HAtom (AInt 20)])
        (\<lambda>a p. Inr (Atom a)) (HRef 0) = Inl RecursionException"
proof (intro conjI)
  let ?h = "\<lambda>r::nat. if r = 0 then ODict [(''a'', HRef 1)] else OList [HAtom (AInt 10), HAtom (AInt 20)]"
  have l: "repr ?h (HRef 1) (VList [PyInt 10, PyInt 20])"
    by (rule repr_list[where vs = "[HAtom (AInt 10), HAtom (AInt 20)]"]) (simp_all add: repr_atom)
  show "repr ?h (HRef 0) (VDict [(''a'', VList [PyInt 10, PyInt 20])])"
    by (rule repr_dict[where kvs = "[(''a'', HRef 1)]"]) (insert l, simp_all)
  show "is_tree (VDict [(''a'', VList [PyInt 10, PyInt 20])])" by simp
  have "u_deep_map (Suc (Suc 0)) ?h (\<lambda>a p. Inr (Atom a)) (HRef 0) [] = Inl (RuntimeError recursion_msg)"
    by (simp add: enumerate_eq_zip)
  then show "deep_map 2 ?h (\<lambda>a p. Inr (Atom a)) (HRef 0) = Inl RecursionException"
    by (simp add: deep_map_def numeral_2_eq_2 recursion_msg_def)
qed

section \<open>Cycles\<close>

lemma nests_down: "nests h (Suc n) v \<Longrightarrow> nests h n v"
proof (induction n arbitrary: v)
  case 0
  show ?case by simp
next
  case (Suc n)
  from Suc.prems obtain r c where v: "v = HRef r" and c: "c \<in> set (children (h r))"
    and n: "nests h (Suc n) c" by (cases v) auto
  from Suc.IH[OF n] c v show ?case by auto
qed

lemma nests_reach: "reach h v r \<Longrightarrow> nests h n (HRef r) \<Longrightarrow> nests h n v"
proof (induction rule: reach.induct)
  case (reach_self r)
  then show ?case .
next
  case (reach_child c r0 r')
  then have "nests h n c" by simp
  with reach_child.hyps(1) have "nests h (Suc n) (HRef r0)" by auto
  then show ?case by (rule nests_down)
qed

lemma cycle_nests:
  assumes "c \<in> set (children (h r))" "reach h c r"
  shows "nests h n (HRef r)"
proof (induction n)
  case 0
  show ?case by simp
next
  case (Suc n)
  from nests_reach[OF assms(2) Suc] assms(1) show ?case by auto
qed

lemma has_cycle_nests: "has_cycle h v \<Longrightarrow> nests h n v"
  unfolding has_cycle_def using cycle_nests nests_reach by blast

lemma sequence_Inl: "sequence rs = Inl e \<Longrightarrow> Inl e \<in> set rs"
  by (induction rs rule: sequence.induct) (auto split: sum.splits)

lemma sequence_has_Inl: "Inl e \<in> set rs \<Longrightarrow> \<exists>e'. sequence rs = Inl e'"
  by (induction rs rule: sequence.induct) (auto split: sum.splits)

lemma tree_shaped_child:
  "tree_shaped h (HRef r) \<Longrightarrow> c \<in> set (children (h r)) \<Longrightarrow> tree_shaped h c"
  unfolding tree_shaped_def by (blast intro: reach_child)

lemma u_deep_map_only_recursion_error:
  "tree_shaped h v \<Longrightarrow> u_deep_map n h (\<lambda>a p. Inr (fn a p)) v kp = Inl e \<Longrightarrow>
   e = RuntimeError recursion_msg"
proof (induction n arbitrary: v kp e)
  case 0
  then show ?case by simp
next
  case (Suc n)
  let ?F = "\<lambda>a p. Inr (fn a p)"
  show ?case
  proof (cases v)
    case (HAtom a)
    with Suc.prems show ?thesis by simp
  next
    case (HRef r)
    have nt: "\<not> is_otuple (h r)" using Suc.prems(1) HRef by (auto simp: tree_shaped_def intro: reach_self)
    show ?thesis
    proof (cases "h r")
      case (OList vs)
      with Suc.prems(2) HRef have "sequence (map (\<lambda>(idx, x). u_deep_map n h ?F x (kp @ [Idx idx]))
          (enumerate 0 vs)) = Inl e" by (simp split: sum.splits)
      from sequence_Inl[OF this] obtain idx x where "(idx, x) \<in> set (enumerate 0 vs)"
        and e: "u_deep_map n h ?F x (kp @ [Idx idx]) = Inl e" by auto
      then have "x \<in> set (children (h r))" using OList by (auto simp: in_set_enumerate_eq)
      with Suc.prems(1) HRef have "tree_shaped h x" by (auto intro: tree_shaped_child)
      from Suc.IH[OF this e] show ?thesis .
    next
      case (OTuple vs)
      with nt show ?thesis by simp
    next
      case (ODict kvs)
      with Suc.prems(2) HRef have "sequence (map (\<lambda>(k, x).
          case u_deep_map n h ?F x (kp @ [Key k]) of Inl e \<Rightarrow> Inl e | Inr y \<Rightarrow> Inr (k, y)) kvs) = Inl e"
        by (simp split: sum.splits)
      from sequence_Inl[OF this] obtain k x where kx: "(k, x) \<in> set kvs"
        and e: "u_deep_map n h ?F x (kp @ [Key k]) = Inl e" by (auto split: sum.splits)
      from kx have "x \<in> set (children (h r))" using ODict by force
      with Suc.prems(1) HRef have "tree_shaped h x" by (auto intro: tree_shaped_child)
      from Suc.IH[OF this e] show ?thesis .
    qed
  qed
qed

lemma u_deep_map_nests_fails:
  "nests h n v \<Longrightarrow> \<exists>e. u_deep_map n h func v kp = Inl e"
proof (induction n arbitrary: v kp)
  case 0
  show ?case by simp
next
  case (Suc n)
  from Suc.prems obtain r c where v: "v = HRef r" and c: "c \<in> set (children (h r))"
    and n: "nests h n c" by (cases v) auto
  show ?case
  proof (cases "h r")
    case (OList vs)
    with c obtain i where i: "i < length vs" and ci: "vs ! i = c" by (auto simp: in_set_conv_nth)
    from Suc.IH[OF n, of "kp @ [Idx i]"] obtain e where "u_deep_map n h func c (kp @ [Idx i]) = Inl e" ..
    moreover have "(i, c) \<in> set (enumerate 0 vs)" using i ci by (simp add: in_set_enumerate_eq)
    ultimately have "Inl e \<in> set (map (\<lambda>(idx, x). u_deep_map n h func x (kp @ [Idx idx])) (enumerate 0 vs))"
      by force
    from sequence_has_Inl[OF this] show ?thesis using v OList by auto
  next
    case (OTuple vs)
    then show ?thesis using v by simp
  next
    case (ODict kvs)
    with c obtain k where kc: "(k, c) \<in> set kvs" by auto
    from Suc.IH[OF n, of "kp @ [Key k]"] obtain e where "u_deep_map n h func c (kp @ [Key k]) = Inl e" ..
    with kc have "Inl e \<in> set (map (\<lambda>(k, x).
          case u_deep_map n h func x (kp @ [Key k]) of Inl e \<Rightarrow> Inl e | Inr y \<Rightarrow> Inr (k, y)) kvs)"
      by force
    from sequence_has_Inl[OF this] show ?thesis using v ODict by auto
  qed
qed

text \<open>
  C9, as the code has it. On an input that contains a reference cycle \<^verbatim>\<open>deep_map\<close> never
  returns a value: it fails, whatever the recursion limit and whatever \<open>func\<close> does. When
  every container the input reaches is a list or a dict and \<open>func\<close> raises nothing, the
  failure is \<^verbatim>\<open>RecursionException\<close>, which is not the \<^verbatim>\<open>DbtConfigError\<close> of a value of
  the wrong shape. On no input at all does \<^verbatim>\<open>deep_map\<close> let a \<^verbatim>\<open>RuntimeError\<close> with the
  interpreter's recursion message through. (The model is a total function: the walk ends
  because the interpreter bounds the recursion.)
\<close>

theorem deep_map_cycle_detected:
  "(has_cycle h v \<and> tree_shaped h v \<longrightarrow>
      deep_map limit h (\<lambda>a p. Inr (fn a p)) v = Inl RecursionException)
   \<and> (has_cycle h v \<longrightarrow> (\<exists>e. deep_map limit h func v = Inl e))
   \<and> RecursionException \<noteq> DbtConfigError
   \<and> (deep_map limit h func v = Inl (RuntimeError msg) \<longrightarrow>
        \<not> sublist ''maximum recursion depth exceeded'' msg)"
proof (intro conjI impI)
  assume a: "has_cycle h v \<and> tree_shaped h v"
  then have "nests h limit v" by (simp add: has_cycle_nests)
  from u_deep_map_nests_fails[OF this, of "\<lambda>a p. Inr (fn a p)" "[]"]
  obtain e where e: "u_deep_map limit h (\<lambda>a p. Inr (fn a p)) v [] = Inl e" ..
  with a have "e = RuntimeError recursion_msg"
    using u_deep_map_only_recursion_error[of h v limit fn "[]" e] by simp
  with e show "deep_map limit h (\<lambda>a p. Inr (fn a p)) v = Inl RecursionException"
    by (simp add: deep_map_def recursion_msg_def)
next
  assume "has_cycle h v"
  then have "nests h limit v" by (simp add: has_cycle_nests)
  from u_deep_map_nests_fails[OF this, of func "[]"]
  show "\<exists>e. deep_map limit h func v = Inl e"
    by (auto simp: deep_map_def split: error.splits)
next
  show "RecursionException \<noteq> DbtConfigError" by simp
next
  assume "deep_map limit h func v = Inl (RuntimeError msg)"
  then show "\<not> sublist ''maximum recursion depth exceeded'' msg"
    by (auto simp: deep_map_def split: sum.splits error.splits if_splits)
qed

theorem deep_map_cycle_detected_witness:
  "deep_map 1000 (\<lambda>r. OList [HAtom (AInt 1), HRef 0]) (\<lambda>a p. Inr (Atom a)) (HRef 0)
     = Inl RecursionException
   \<and> (\<exists>e. deep_map 1000 (\<lambda>r. OList [HAtom (AInt 1), HRef 0])
              (\<lambda>a p. Inl (RuntimeError ''boom'')) (HRef 0) = Inl e)
   \<and> deep_map 1000 (\<lambda>r. OList []) (\<lambda>a p. Inl (RuntimeError ''boom'')) (HAtom ANone)
        = Inl (RuntimeError ''boom'')
   \<and> \<not> sublist ''maximum recursion depth exceeded'' ''boom''"
proof -
  let ?h = "\<lambda>r::nat. OList [HAtom (AInt 1), HRef 0]"
  let ?boom = "\<lambda>(a::atom) (p::keypath). (Inl (RuntimeError ''boom'') :: error + value)"
  have "reach ?h (HRef 0) 0" by (rule reach_self)
  then have cyc: "has_cycle ?h (HRef 0)"
    unfolding has_cycle_def by (intro exI[of _ 0] conjI bexI[of _ "HRef 0"]) simp_all
  moreover have "tree_shaped ?h (HRef 0)" by (simp add: tree_shaped_def)
  ultimately have 1: "deep_map 1000 ?h (\<lambda>a p. Inr (Atom a)) (HRef 0) = Inl RecursionException"
    using deep_map_cycle_detected[where h = "?h" and v = "HRef 0" and limit = 1000
        and fn = "\<lambda>a p. Atom a"] by blast
  have 2: "\<exists>e. deep_map 1000 ?h ?boom (HRef 0) = Inl e"
    using deep_map_cycle_detected[where h = "?h" and v = "HRef 0" and limit = 1000
        and func = "?boom"] cyc by blast
  have "u_deep_map (Suc 999) (\<lambda>r. OList []) ?boom (HAtom ANone) [] = Inl (RuntimeError ''boom'')"
    by (simp only: u_deep_map.simps hval.case)
  moreover have "\<not> sublist ''maximum recursion depth exceeded'' ''boom''"
    by (auto dest: sublist_length_le)
  ultimately have 3: "deep_map 1000 (\<lambda>r. OList []) ?boom (HAtom ANone) = Inl (RuntimeError ''boom'')"
    by (simp add: deep_map_def)
  then have 4: "\<not> sublist ''maximum recursion depth exceeded'' ''boom''"
    using deep_map_cycle_detected[where h = "\<lambda>r. OList []" and v = "HAtom ANone" and limit = 1000
        and func = "?boom" and msg = "''boom''"] by blast
  from 1 2 3 4 show ?thesis by blast
qed

lemma u_deep_map_tuple_first:
  "u_deep_map (Suc (Suc n)) (\<lambda>r. if r = 0 then OList [HRef 1, HRef 0] else OTuple []) func (HRef 0) kp
     = Inl DbtConfigError"
  by (simp add: enumerate_eq_zip)

text \<open>
  C9 as stated fails: the list \<^verbatim>\<open>a = [(), a]\<close> contains itself, and \<^verbatim>\<open>deep_map\<close> fails
  on it with \<^verbatim>\<open>DbtConfigError\<close>, not with \<^verbatim>\<open>RecursionException\<close>: the walk meets the tuple
  before it comes back to the list.
\<close>

theorem deep_map_cycle_shape_counterexample:
  "has_cycle (\<lambda>r. if r = 0 then OList [HRef 1, HRef 0] else OTuple []) (HRef 0)
   \<and> deep_map 1000 (\<lambda>r. if r = 0 then OList [HRef 1, HRef 0] else OTuple [])
        (\<lambda>a p. Inr (Atom a)) (HRef 0) = Inl DbtConfigError"
proof
  let ?h = "\<lambda>r::nat. if r = 0 then OList [HRef 1, HRef 0] else OTuple []"
  have "reach ?h (HRef 0) 0" by (rule reach_self)
  then show "has_cycle ?h (HRef 0)"
    unfolding has_cycle_def by (intro exI[of _ 0] conjI bexI[of _ "HRef 0"]) simp_all
  have "u_deep_map (Suc (Suc 998)) ?h (\<lambda>a p. Inr (Atom a)) (HRef 0) [] = Inl DbtConfigError"
    by (rule u_deep_map_tuple_first)
  then show "deep_map 1000 ?h (\<lambda>a p. Inr (Atom a)) (HRef 0) = Inl DbtConfigError"
    by (simp add: deep_map_def)
qed

section \<open>The merge of one argument is a deep copy\<close>

lemma reach_old:
  assumes cl: "closed st" and same: "\<forall>r < nxt st. h r = cells st r"
  shows "reach h x r \<Longrightarrow> below (nxt st) x \<Longrightarrow> r < nxt st"
proof (induction rule: reach.induct)
  case (reach_self r)
  then show ?case by (simp add: below_def)
next
  case (reach_child c r0 r')
  from reach_child.prems have r0: "r0 < nxt st" by (simp add: below_def)
  with same reach_child.hyps(1) have "c \<in> set (children (cells st r0))" by simp
  with cl r0 have "below (nxt st) c" by (auto simp: closed_def)
  then show ?case by (rule reach_child.IH)
qed

lemma reach_new:
  assumes ext: "extends st st'"
  shows "reach (cells st') y r \<Longrightarrow> within (nxt st) (nxt st') y \<Longrightarrow> nxt st \<le> r \<and> r < nxt st'"
proof (induction rule: reach.induct)
  case (reach_self r)
  then show ?case by (simp add: within_def)
next
  case (reach_child c r0 r')
  from reach_child.prems have "nxt st \<le> r0 \<and> r0 < nxt st'" by (simp add: within_def)
  with ext reach_child.hyps(1) have "within (nxt st) (nxt st') c" by (auto simp: extends_def)
  then show ?case by (rule reach_child.IH)
qed

lemma repr_frame:
  "repr h x t \<Longrightarrow> (\<forall>r. reach h x r \<longrightarrow> h' r = h r) \<Longrightarrow> repr h' x t"
proof (induction rule: repr.induct)
  case (repr_atom a)
  show ?case by (rule repr.repr_atom)
next
  case (repr_list r vs ts)
  have hr: "h' r = OList vs" using repr_list.prems repr_list.hyps by (simp add: reach_self)
  have "list_all2 (repr h') vs ts"
  proof (rule list.rel_mono_strong[OF repr_list.IH])
    fix v t assume mem: "v \<in> set vs" and ih: "repr h v t \<and> ((\<forall>r. reach h v r \<longrightarrow> h' r = h r) \<longrightarrow> repr h' v t)"
    have "\<forall>r'. reach h v r' \<longrightarrow> h' r' = h r'"
    proof (intro allI impI)
      fix r' assume "reach h v r'"
      with mem repr_list.hyps(1) have "reach h (HRef r) r'" by (auto intro: reach_child)
      with repr_list.prems show "h' r' = h r'" by blast
    qed
    with ih show "repr h' v t" by blast
  qed
  with hr show ?case by (rule repr.repr_list)
next
  case (repr_tuple r vs ts)
  have hr: "h' r = OTuple vs" using repr_tuple.prems repr_tuple.hyps by (simp add: reach_self)
  have "list_all2 (repr h') vs ts"
  proof (rule list.rel_mono_strong[OF repr_tuple.IH])
    fix v t assume mem: "v \<in> set vs" and ih: "repr h v t \<and> ((\<forall>r. reach h v r \<longrightarrow> h' r = h r) \<longrightarrow> repr h' v t)"
    have "\<forall>r'. reach h v r' \<longrightarrow> h' r' = h r'"
    proof (intro allI impI)
      fix r' assume "reach h v r'"
      with mem repr_tuple.hyps(1) have "reach h (HRef r) r'" by (auto intro: reach_child)
      with repr_tuple.prems show "h' r' = h r'" by blast
    qed
    with ih show "repr h' v t" by blast
  qed
  with hr show ?case by (rule repr.repr_tuple)
next
  case (repr_dict r kvs kts)
  have hr: "h' r = ODict kvs" using repr_dict.prems repr_dict.hyps by (simp add: reach_self)
  have "list_all2 (repr h') (map snd kvs) (map snd kts)"
  proof (rule list.rel_mono_strong[OF repr_dict.IH])
    fix v t assume mem: "v \<in> set (map snd kvs)"
      and ih: "repr h v t \<and> ((\<forall>r. reach h v r \<longrightarrow> h' r = h r) \<longrightarrow> repr h' v t)"
    have "\<forall>r'. reach h v r' \<longrightarrow> h' r' = h r'"
    proof (intro allI impI)
      fix r' assume "reach h v r'"
      moreover from mem repr_dict.hyps(1) have "v \<in> set (children (h r))" by simp
      ultimately have "reach h (HRef r) r'" by (rule reach_child[rotated])
      with repr_dict.prems show "h' r' = h r'" by blast
    qed
    with ih show "repr h' v t" by blast
  qed
  with hr repr_dict.hyps(2) show ?case by (rule repr.repr_dict)
qed


lemma within_mono: "within lo hi v \<Longrightarrow> lo' \<le> lo \<Longrightarrow> hi \<le> hi' \<Longrightarrow> within lo' hi' v"
  by (cases v) (auto simp: within_def)

lemma within_below: "within lo hi v \<Longrightarrow> below hi v"
  by (cases v) (auto simp: within_def below_def)

lemma below_mono: "below n v \<Longrightarrow> n \<le> n' \<Longrightarrow> below n' v"
  by (cases v) (auto simp: below_def)

lemma extends_refl: "extends st st"
  by (auto simp: extends_def)

lemma extends_trans:
  assumes "extends st st'" "extends st' st''"
  shows "extends st st''"
  unfolding extends_def
proof (intro conjI allI impI ballI)
  show "nxt st \<le> nxt st''" using assms by (simp add: extends_def)
next
  fix r assume "r < nxt st"
  with assms show "cells st'' r = cells st r" by (simp add: extends_def)
next
  fix r c assume r: "nxt st \<le> r" "r < nxt st''" and c: "c \<in> set (children (cells st'' r))"
  show "within (nxt st) (nxt st'') c"
  proof (cases "r < nxt st'")
    case True
    with assms(2) c have "c \<in> set (children (cells st' r))" by (simp add: extends_def)
    with assms(1) r True have "within (nxt st) (nxt st') c" by (auto simp: extends_def)
    then show ?thesis using assms(2) by (auto intro: within_mono simp: extends_def)
  next
    case False
    then have "nxt st' \<le> r" by simp
    with assms(2) r c have "within (nxt st') (nxt st'') c" by (auto simp: extends_def)
    then show ?thesis using assms(1) by (auto intro: within_mono simp: extends_def)
  qed
qed

lemma extends_closed:
  assumes "closed st" "extends st st'"
  shows "closed st'"
  unfolding closed_def
proof (intro allI impI ballI)
  fix r c assume r: "r < nxt st'" and c: "c \<in> set (children (cells st' r))"
  show "below (nxt st') c"
  proof (cases "r < nxt st")
    case True
    with assms(2) c have "c \<in> set (children (cells st r))" by (simp add: extends_def)
    with assms(1) True have "below (nxt st) c" by (auto simp: closed_def)
    then show ?thesis using assms(2) by (auto intro: below_mono simp: extends_def)
  next
    case False
    then have "nxt st \<le> r" by simp
    with assms(2) r c have "within (nxt st) (nxt st') c" by (auto simp: extends_def)
    then show ?thesis by (rule within_below)
  qed
qed

lemma repr_same_below:
  assumes "closed st" "below (nxt st) x" "repr (cells st) x t" "\<forall>r < nxt st. h' r = cells st r"
  shows "repr h' x t"
proof (rule repr_frame[OF assms(3)], intro allI impI)
  fix r assume "reach (cells st) x r"
  from reach_old[OF assms(1) _ this assms(2)] have "r < nxt st" by simp
  with assms(4) show "h' r = cells st r" by simp
qed

lemma repr_extends:
  assumes "closed st" "below (nxt st) x" "repr (cells st) x t" "extends st st'"
  shows "repr (cells st') x t"
  using repr_same_below[OF assms(1-3), of "cells st'"] assms(4) by (simp add: extends_def)

lemma alloc_step:
  assumes cl: "closed st0" and ext: "extends st0 st"
    and ch: "\<forall>y \<in> set (children ob). within (nxt st0) (nxt st) y"
    and al: "alloc ob st = (y, st')"
  shows "extends st0 st'" and "within (nxt st0) (nxt st') y" and "y = HRef (nxt st)"
    and "cells st' (nxt st) = ob"
    and "\<And>z t. below (nxt st) z \<Longrightarrow> repr (cells st) z t \<Longrightarrow> repr (cells st') z t"
proof -
  from al have y: "y = HRef (nxt st)" and n': "nxt st' = Suc (nxt st)"
    and c': "cells st' = (cells st)(nxt st := ob)" by (auto simp: alloc_def)
  show "y = HRef (nxt st)" by (rule y)
  show "cells st' (nxt st) = ob" using c' by simp
  have cl': "closed st" using cl ext by (rule extends_closed)
  show "\<And>z t. below (nxt st) z \<Longrightarrow> repr (cells st) z t \<Longrightarrow> repr (cells st') z t"
    using repr_same_below[OF cl', of _ _ "cells st'"] c' by simp
  show "extends st0 st'"
    unfolding extends_def
  proof (intro conjI allI impI ballI)
    show "nxt st0 \<le> nxt st'" using ext n' by (simp add: extends_def)
  next
    fix r assume "r < nxt st0"
    with ext c' show "cells st' r = cells st0 r" by (auto simp: extends_def)
  next
    fix r c assume r: "nxt st0 \<le> r" "r < nxt st'" and c: "c \<in> set (children (cells st' r))"
    show "within (nxt st0) (nxt st') c"
    proof (cases "r = nxt st")
      case True
      with c c' ch have "within (nxt st0) (nxt st) c" by simp
      then show ?thesis using n' by (auto intro: within_mono)
    next
      case False
      with r n' c c' have "r < nxt st" "c \<in> set (children (cells st r))" by auto
      with ext r have "within (nxt st0) (nxt st) c" by (auto simp: extends_def)
      then show ?thesis using n' by (auto intro: within_mono)
    qed
  qed
  show "within (nxt st0) (nxt st') y" using y n' ext by (simp add: within_def extends_def)
qed


lemma frames_member: "t \<in> set ts \<Longrightarrow> frames t \<le> fold max (map frames ts) 0"
  by (rule fold_max_ge_member) simp

lemma frames_item: "kt \<in> set kts \<Longrightarrow> frames (snd kt) \<le> fold max (map (\<lambda>kt. frames (snd kt)) kts) 0"
  by (rule fold_max_ge_member) simp

lemma repr_children_below:
  "closed st \<Longrightarrow> r < nxt st \<Longrightarrow> \<forall>c \<in> set (children (cells st r)). below (nxt st) c"
  by (simp add: closed_def)

lemma copy_correct:
  "\<forall>t. closed st \<longrightarrow> below (nxt st) x \<longrightarrow> repr (cells st) x t \<longrightarrow> frames t \<le> depth \<longrightarrow>
     (\<exists>y st'. copy_deepcopy depth x st = Inr (y, st') \<and> extends st st'
        \<and> within (nxt st) (nxt st') y \<and> repr (cells st') y t)"
  "\<forall>ts. closed st \<longrightarrow> (\<forall>x \<in> set xs. below (nxt st) x) \<longrightarrow> list_all2 (repr (cells st)) xs ts \<longrightarrow>
     (\<forall>t \<in> set ts. frames t \<le> depth) \<longrightarrow>
     (\<exists>ys st'. copy_elements depth xs st = Inr (ys, st') \<and> extends st st'
        \<and> (\<forall>y \<in> set ys. within (nxt st) (nxt st') y) \<and> list_all2 (repr (cells st')) ys ts)"
proof (induction depth x st and depth xs st rule: copy_deepcopy_copy_elements.induct)
  case (1 x st)
  show ?case
  proof (intro allI impI)
    fix t assume "frames t \<le> 0"
    then have False by (cases t) simp_all
    then show "\<exists>y st'. copy_deepcopy 0 x st = Inr (y, st') \<and> extends st st'
        \<and> within (nxt st) (nxt st') y \<and> repr (cells st') y t" ..
  qed
next
  case (2 depth a st)
  show ?case
    by (auto elim: repr.cases intro: repr_atom simp: extends_refl within_def)
next
  case (3 depth r st)
  show ?case
  proof (intro allI impI)
    fix t
    assume cl: "closed st" and bl: "below (nxt st) (HRef r)" and rp: "repr (cells st) (HRef r) t"
      and fr: "frames t \<le> Suc depth"
    from bl have r: "r < nxt st" by (simp add: below_def)
    have chb: "\<forall>c \<in> set (children (cells st r)). below (nxt st) c"
      using cl r by (rule repr_children_below)
    from rp show "\<exists>y st'. copy_deepcopy (Suc depth) (HRef r) st = Inr (y, st') \<and> extends st st'
        \<and> within (nxt st) (nxt st') y \<and> repr (cells st') y t"
    proof (cases rule: repr.cases)
      case (repr_list vs ts)
      from fr repr_list(1) have "\<forall>t \<in> set ts. frames t \<le> depth"
        using frames_member[of _ ts] by fastforce
      with "3.IH"(1)[OF repr_list(2)] cl chb repr_list
      obtain ys st1 where c: "copy_elements depth vs st = Inr (ys, st1)" and e: "extends st st1"
        and w: "\<forall>y \<in> set ys. within (nxt st) (nxt st1) y"
        and rs: "list_all2 (repr (cells st1)) ys ts" by auto
      obtain y st' where al: "alloc (OList ys) st1 = (y, st')" by (cases "alloc (OList ys) st1")
      have chw: "\<forall>y \<in> set (children (OList ys)). within (nxt st) (nxt st1) y" using w by simp
      note st = alloc_step[OF cl e chw al]
      have "list_all2 (repr (cells st')) ys ts"
      proof (rule list.rel_mono_strong[OF rs])
        fix z t' assume "z \<in> set ys" "repr (cells st1) z t'"
        with w st(5) show "repr (cells st') z t'" by (auto intro: within_below)
      qed
      with st(3,4) have "repr (cells st') y (VList ts)" by (auto intro: repr.repr_list)
      with c al st(1,2) repr_list show ?thesis by simp
    next
      case (repr_tuple vs ts)
      from fr repr_tuple(1) have "\<forall>t \<in> set ts. frames t \<le> depth"
        using frames_member[of _ ts] by fastforce
      with "3.IH"(2)[OF repr_tuple(2)] cl chb repr_tuple
      obtain ys st1 where c: "copy_elements depth vs st = Inr (ys, st1)" and e: "extends st st1"
        and w: "\<forall>y \<in> set ys. within (nxt st) (nxt st1) y"
        and rs: "list_all2 (repr (cells st1)) ys ts" by auto
      obtain y st' where al: "alloc (OTuple ys) st1 = (y, st')" by (cases "alloc (OTuple ys) st1")
      have chw: "\<forall>y \<in> set (children (OTuple ys)). within (nxt st) (nxt st1) y" using w by simp
      note st = alloc_step[OF cl e chw al]
      have "list_all2 (repr (cells st')) ys ts"
      proof (rule list.rel_mono_strong[OF rs])
        fix z t' assume "z \<in> set ys" "repr (cells st1) z t'"
        with w st(5) show "repr (cells st') z t'" by (auto intro: within_below)
      qed
      with st(3,4) have "repr (cells st') y (VTuple ts)" by (auto intro: repr.repr_tuple)
      with c al st(1,2) repr_tuple show ?thesis by simp
    next
      case (repr_dict kvs kts)
      from fr repr_dict(1) have fr': "\<forall>t \<in> set (map snd kts). frames t \<le> depth"
        using frames_item[of _ kts] by fastforce
      have b: "\<forall>x \<in> set (map snd kvs). below (nxt st) x" using chb repr_dict(2) by simp
      from "3.IH"(3)[OF repr_dict(2), THEN spec, of "map snd kts"] cl b repr_dict(4) fr'
      obtain ys st1 where c: "copy_elements depth (map snd kvs) st = Inr (ys, st1)"
        and e: "extends st st1"
        and w: "\<forall>y \<in> set ys. within (nxt st) (nxt st1) y"
        and rs: "list_all2 (repr (cells st1)) ys (map snd kts)" by blast
      let ?ob = "ODict (zip (map fst kvs) ys)"
      obtain y st' where al: "alloc ?ob st1 = (y, st')" by (cases "alloc ?ob st1")
      have len: "length ys = length kvs"
        using list_all2_lengthD[OF rs] repr_dict(3) by (metis length_map)
      have sn: "map snd (zip (map fst kvs) ys) = ys" and fs: "map fst (zip (map fst kvs) ys) = map fst kvs"
        using len by simp_all
      have chw: "\<forall>y \<in> set (children ?ob). within (nxt st) (nxt st1) y" using w sn by simp
      note st = alloc_step[OF cl e chw al]
      have "list_all2 (repr (cells st')) ys (map snd kts)"
      proof (rule list.rel_mono_strong[OF rs])
        fix z t' assume "z \<in> set ys" "repr (cells st1) z t'"
        with w st(5) show "repr (cells st') z t'" by (auto intro: within_below)
      qed
      with st(3,4) sn fs repr_dict(3) have "repr (cells st') y (VDict kts)"
        by (auto intro!: repr.repr_dict[where kvs = "zip (map fst kvs) ys"])
      with c al st(1,2) repr_dict show ?thesis by simp
    qed
  qed
next
  case (4 depth st)
  show ?case by (simp add: extends_refl)
next
  case (5 depth x xs st)
  show ?case
  proof (intro allI impI)
    fix ts
    assume cl: "closed st" and bl: "\<forall>x \<in> set (x # xs). below (nxt st) x"
      and rp: "list_all2 (repr (cells st)) (x # xs) ts" and fr: "\<forall>t \<in> set ts. frames t \<le> depth"
    from rp obtain t ts' where ts: "ts = t # ts'" and rt: "repr (cells st) x t"
      and rts: "list_all2 (repr (cells st)) xs ts'" by (cases ts) auto
    from "5.IH"(1) cl bl rt fr ts
    obtain y st1 where c1: "copy_deepcopy depth x st = Inr (y, st1)" and e1: "extends st st1"
      and w1: "within (nxt st) (nxt st1) y" and r1: "repr (cells st1) y t" by auto
    have cl1: "closed st1" using cl e1 by (rule extends_closed)
    have le1: "nxt st \<le> nxt st1" using e1 by (simp add: extends_def)
    have bl1: "\<forall>x \<in> set xs. below (nxt st1) x" using bl le1 by (auto intro: below_mono)
    have rts1: "list_all2 (repr (cells st1)) xs ts'"
    proof (rule list.rel_mono_strong[OF rts])
      fix z t' assume "z \<in> set xs" "repr (cells st) z t'"
      with bl show "repr (cells st1) z t'" using repr_extends[OF cl _ _ e1] by auto
    qed
    from "5.IH"(2)[OF c1 refl] cl1 bl1 rts1 fr ts
    obtain ys st2 where c2: "copy_elements depth xs st1 = Inr (ys, st2)" and e2: "extends st1 st2"
      and w2: "\<forall>y \<in> set ys. within (nxt st1) (nxt st2) y"
      and r2: "list_all2 (repr (cells st2)) ys ts'" by auto
    have le2: "nxt st1 \<le> nxt st2" using e2 by (simp add: extends_def)
    have "extends st st2" using e1 e2 by (rule extends_trans)
    moreover have "\<forall>z \<in> set (y # ys). within (nxt st) (nxt st2) z"
      using w1 w2 le1 le2 by (auto intro: within_mono)
    moreover have "repr (cells st2) y t"
      using repr_extends[OF cl1 within_below[OF w1] r1 e2] .
    ultimately show "\<exists>ys st'. copy_elements depth (x # xs) st = Inr (ys, st') \<and> extends st st'
        \<and> (\<forall>y \<in> set ys. within (nxt st) (nxt st') y) \<and> list_all2 (repr (cells st')) ys ts"
      using c1 c2 r2 ts by simp
  qed
qed


lemma repr_update_unreached:
  assumes "repr h x t" "\<not> reach h x r"
  shows "repr (h(r := ob)) x t"
proof (rule repr_frame[OF assms(1)], intro allI impI)
  fix r' assume "reach h x r'"
  with assms(2) have "r' \<noteq> r" by auto
  then show "(h(r := ob)) r' = h r'" by simp
qed

text \<open>
  C7. Let \<open>x\<close> be a well-formed Tree \<open>t\<close> in a closed store, and let the recursion limit
  allow the nesting of \<open>t\<close>. Then \<^verbatim>\<open>deep_merge(x)\<close> returns a value \<open>y\<close> that is the same
  tree \<open>t\<close>, in a store in which \<open>x\<close> still is \<open>t\<close>; no container is reached from both \<open>x\<close>
  and \<open>y\<close>; replacing any container of \<open>y\<close> by any object leaves \<open>x\<close> what it was, and
  replacing any container of \<open>x\<close> leaves \<open>y\<close> what it was. On values, \<^verbatim>\<open>deep_merge(t)\<close> is
  \<open>t\<close>.
\<close>

theorem deep_merge_one_deep_copy:
  "(closed st \<and> below (nxt st) x \<and> repr (cells st) x t \<and> is_tree t \<and> frames t \<le> depth \<longrightarrow>
      (\<exists>y st'. deep_merge_one depth x st = Inr (y, st')
         \<and> repr (cells st') y t \<and> repr (cells st') x t
         \<and> (\<forall>r. reach (cells st') y r \<longrightarrow> \<not> reach (cells st') x r)
         \<and> (\<forall>r ob. reach (cells st') y r \<longrightarrow> repr ((cells st')(r := ob)) x t)
         \<and> (\<forall>r ob. reach (cells st') x r \<longrightarrow> repr ((cells st')(r := ob)) y t)))
   \<and> deep_merge [t] = Inr t"
proof (intro conjI impI)
  assume a: "closed st \<and> below (nxt st) x \<and> repr (cells st) x t \<and> is_tree t \<and> frames t \<le> depth"
  then have cl: "closed st" and bl: "below (nxt st) x" and rp: "repr (cells st) x t" by simp_all
  from copy_correct(1)[of st x depth] a
  obtain y st' where c: "copy_deepcopy depth x st = Inr (y, st')" and e: "extends st st'"
    and w: "within (nxt st) (nxt st') y" and ry: "repr (cells st') y t" by blast
  have rx: "repr (cells st') x t" using cl bl rp e by (rule repr_extends)
  have same: "\<forall>r < nxt st. cells st' r = cells st r" using e by (simp add: extends_def)
  have old: "r < nxt st" if "reach (cells st') x r" for r
    using reach_old[OF cl same that bl] .
  have new: "nxt st \<le> r" if "reach (cells st') y r" for r
    using reach_new[OF e that w] by simp
  have disj: "\<not> reach (cells st') x r" if "reach (cells st') y r" for r
    using old[of r] new[OF that] by auto
  have disj': "\<not> reach (cells st') y r" if "reach (cells st') x r" for r
    using old[OF that] new[of r] by auto
  have "\<forall>r ob. reach (cells st') y r \<longrightarrow> repr ((cells st')(r := ob)) x t"
    using repr_update_unreached[OF rx] disj by blast
  moreover have "\<forall>r ob. reach (cells st') x r \<longrightarrow> repr ((cells st')(r := ob)) y t"
    using repr_update_unreached[OF ry] disj' by blast
  ultimately show "\<exists>y st'. deep_merge_one depth x st = Inr (y, st')
         \<and> repr (cells st') y t \<and> repr (cells st') x t
         \<and> (\<forall>r. reach (cells st') y r \<longrightarrow> \<not> reach (cells st') x r)
         \<and> (\<forall>r ob. reach (cells st') y r \<longrightarrow> repr ((cells st')(r := ob)) x t)
         \<and> (\<forall>r ob. reach (cells st') x r \<longrightarrow> repr ((cells st')(r := ob)) y t)"
    using c ry rx disj unfolding deep_merge_one_def by blast
next
  show "deep_merge [t] = Inr t" by (simp add: deep_merge.simps[of "[t]"] deepcopy_def)
qed

theorem deep_merge_one_deep_copy_witness:
  "\<exists>y st'. deep_merge_one 5 (HRef 0)
        \<lparr>cells = (\<lambda>r. if r = 0 then ODict [(''a'', HRef 1)] else OList [HAtom (AInt 1), HAtom (AInt 2)]),
         nxt = 2\<rparr> = Inr (y, st')
      \<and> repr (cells st') y (VDict [(''a'', VList [PyInt 1, PyInt 2])])
      \<and> repr (cells st') (HRef 0) (VDict [(''a'', VList [PyInt 1, PyInt 2])])
      \<and> \<not> reach (cells st') (HRef 0) (case y of HRef r \<Rightarrow> r | HAtom a \<Rightarrow> 0)
      \<and> repr ((cells st')(0 := OList [])) y (VDict [(''a'', VList [PyInt 1, PyInt 2])])
      \<and> repr ((cells st')((case y of HRef r \<Rightarrow> r | HAtom a \<Rightarrow> 0) := OList [])) (HRef 0)
           (VDict [(''a'', VList [PyInt 1, PyInt 2])])"
proof -
  let ?h = "\<lambda>r::nat. if r = 0 then ODict [(''a'', HRef 1)] else OList [HAtom (AInt 1), HAtom (AInt 2)]"
  let ?st = "\<lparr>cells = ?h, nxt = 2\<rparr>"
  let ?t = "VDict [(''a'', VList [PyInt 1, PyInt 2])]"
  have l: "repr ?h (HRef 1) (VList [PyInt 1, PyInt 2])"
    by (rule repr_list[where vs = "[HAtom (AInt 1), HAtom (AInt 2)]"]) (simp_all add: repr_atom)
  have rp: "repr (cells ?st) (HRef 0) ?t"
    by (simp, rule repr_dict[where kvs = "[(''a'', HRef 1)]"]) (insert l, simp_all)
  have cl: "closed ?st" by (auto simp: closed_def below_def)
  have "closed ?st \<and> below (nxt ?st) (HRef 0) \<and> repr (cells ?st) (HRef 0) ?t \<and> is_tree ?t \<and> frames ?t \<le> 5"
    using cl rp by (simp add: below_def)
  with deep_merge_one_deep_copy[where st = "?st" and x = "HRef 0" and t = "?t" and depth = 5]
  obtain y st' where c: "deep_merge_one 5 (HRef 0) ?st = Inr (y, st')"
    and ry: "repr (cells st') y ?t" and rx: "repr (cells st') (HRef 0) ?t"
    and d: "\<forall>r. reach (cells st') y r \<longrightarrow> \<not> reach (cells st') (HRef 0) r"
    and my: "\<forall>r ob. reach (cells st') y r \<longrightarrow> repr ((cells st')(r := ob)) (HRef 0) ?t"
    and mx: "\<forall>r ob. reach (cells st') (HRef 0) r \<longrightarrow> repr ((cells st')(r := ob)) y ?t" by blast
  from ry obtain ry' where y: "y = HRef ry'" by (cases rule: repr.cases) auto
  then have self: "reach (cells st') y (case y of HRef r \<Rightarrow> r | HAtom a \<Rightarrow> 0)"
    by (simp add: reach_self)
  have "reach (cells st') (HRef 0) 0" by (rule reach_self)
  with mx have 1: "repr ((cells st')(0 := OList [])) y ?t" by blast
  from self d have 2: "\<not> reach (cells st') (HRef 0) (case y of HRef r \<Rightarrow> r | HAtom a \<Rightarrow> 0)" by blast
  from self my have 3: "repr ((cells st')((case y of HRef r \<Rightarrow> r | HAtom a \<Rightarrow> 0) := OList [])) (HRef 0) ?t"
    by blast
  from c ry rx 1 2 3 show ?thesis by blast
qed

end
